theory Spec2Isabelle
  imports Main "HOL-Library.AList" "HOL-Library.Multiset"
begin

section \<open>Errors raised by the network builders\<close>

text \<open>
  The builders define no exception class of their own. Every failure is one raised by
  pandas or by a Python dict: a \<open>KeyError\<close> naming the columns a table lacks, a
  \<open>KeyError\<close> naming the key (a legislator id) a dict or adjacency view lacks, and the
  \<open>IndexError\<close> of \<open>.iloc[0]\<close> on an empty selection.
\<close>

datatype error = KeyError "string list" | KeyError_id int | IndexError

section \<open>The input table (pandas DataFrame)\<close>

text \<open>
  A table has a list of column labels and a list of rows. A row record carries one field
  per column of the schema; \<open>columns\<close> says which of them the table really has, and
  reading a column that is not listed raises \<open>KeyError\<close>, as pandas does. Legislator ids
  are Python integers, names, parties, states, group labels and vote choices are strings.
\<close>

record 'r dataframe =
  columns :: "string list"
  rows :: "'r list"

text \<open>Membership table: \<open>id_deputado, nome_deputado, siglaPartido_deputado,
  siglaUf_deputado, titulo\<close>.\<close>

record frente_row =
  id_deputado :: int
  nome_deputado :: string
  siglaPartido_deputado :: string
  siglaUf_deputado :: string
  titulo :: string

text \<open>Voting table: \<open>id_deputado, nome, siglaPartido, siglaUf, id, tipoVoto\<close>. The fields
  carry the prefix \<open>v_\<close>; the ballot identifier \<open>id\<close> is of any ordered type, since
  \<open>groupby\<close> sorts the groups by it.\<close>

record 'b voto_row =
  v_id_deputado :: int
  v_nome :: string
  v_siglaPartido :: string
  v_siglaUf :: string
  v_id :: 'b
  v_tipoVoto :: string

text \<open>The four columns both builders read to populate the nodes, with their labels.\<close>

record 'r schema =
  col_id :: string
  get_id :: "'r \<Rightarrow> int"
  col_nome :: string
  get_nome :: "'r \<Rightarrow> string"
  col_partido :: string
  get_partido :: "'r \<Rightarrow> string"
  col_uf :: string
  get_uf :: "'r \<Rightarrow> string"

definition frente_schema :: "frente_row schema" where
  "frente_schema =
     \<lparr>col_id = ''id_deputado'', get_id = id_deputado,
      col_nome = ''nome_deputado'', get_nome = nome_deputado,
      col_partido = ''siglaPartido_deputado'', get_partido = siglaPartido_deputado,
      col_uf = ''siglaUf_deputado'', get_uf = siglaUf_deputado\<rparr>"

definition voto_schema :: "'b voto_row schema" where
  "voto_schema =
     \<lparr>col_id = ''id_deputado'', get_id = v_id_deputado,
      col_nome = ''nome'', get_nome = v_nome,
      col_partido = ''siglaPartido'', get_partido = v_siglaPartido,
      col_uf = ''siglaUf'', get_uf = v_siglaUf\<rparr>"

definition missing :: "'r dataframe \<Rightarrow> string list \<Rightarrow> string list" where
  "missing df cs = filter (\<lambda>c. c \<notin> set (columns df)) cs"

text \<open>\<open>DataFrame.drop_duplicates\<close>: keeps the first occurrence of every row, in order.\<close>

definition drop_duplicates :: "'a list \<Rightarrow> 'a list" where
  "drop_duplicates xs = rev (remdups (rev xs))"

text \<open>\<open>df[[col_id, col_nome]].drop_duplicates().itertuples(index=False)\<close>\<close>

definition distinct_pairs :: "'r schema \<Rightarrow> 'r dataframe \<Rightarrow> error + (int \<times> string) list" where
  "distinct_pairs sc df =
     (if missing df [col_id sc, col_nome sc] \<noteq> []
      then Inl (KeyError (missing df [col_id sc, col_nome sc]))
      else Inr (drop_duplicates (map (\<lambda>r. (get_id sc r, get_nome sc r)) (rows df))))"

text \<open>\<open>df.loc[df[col_id] == dep_id, c].iloc[0]\<close>\<close>

definition loc_first ::
  "'r schema \<Rightarrow> 'r dataframe \<Rightarrow> int \<Rightarrow> string \<Rightarrow> ('r \<Rightarrow> 'a) \<Rightarrow> error + 'a" where
  "loc_first sc df dep_id c g =
     (if col_id sc \<notin> set (columns df) then Inl (KeyError [col_id sc])
      else if c \<notin> set (columns df) then Inl (KeyError [c])
      else case filter (\<lambda>r. get_id sc r = dep_id) (rows df) of
             [] \<Rightarrow> Inl IndexError
           | r # _ \<Rightarrow> Inr (g r))"

section \<open>The graph (networkx Graph)\<close>

text \<open>
  \<open>nx.Graph\<close> keeps two insertion-ordered dicts: \<open>_node\<close> (node to attribute dict) and
  \<open>_adj\<close> (node to neighbour to edge-data dict), the edge-data dict of an edge being
  shared by both directions. An ordered dict is an association list updated in place
  (\<open>AList.update\<close>, \<open>AList.map_entry\<close>). A node's attribute dict is restricted to the
  three keys the builders write, \<open>nome\<close>, \<open>partido\<close> and \<open>uf\<close> (\<open>None\<close>: key absent); an
  edge-data dict holds the single key \<open>weight\<close>, so it is the weight itself, written to
  both directions at once.
\<close>

record node_attrs =
  attr_nome :: "string option"
  attr_partido :: "string option"
  attr_uf :: "string option"

record graph =
  g_node :: "(int \<times> node_attrs) list"
  g_adj :: "(int \<times> (int \<times> int) list) list"

text \<open>\<open>BaseNetwork.__init__\<close>: \<open>self.G = nx.Graph()\<close>\<close>

definition empty_graph :: graph where
  "empty_graph = \<lparr>g_node = [], g_adj = []\<rparr>"

definition add_node :: "int \<Rightarrow> string \<Rightarrow> string \<Rightarrow> string \<Rightarrow> graph \<Rightarrow> graph" where
  "add_node n nm p u G =
     (if n \<notin> fst ` set (g_node G)
      then G\<lparr>g_adj := AList.update n [] (g_adj G),
             g_node := AList.update n \<lparr>attr_nome = Some nm, attr_partido = Some p, attr_uf = Some u\<rparr> (g_node G)\<rparr>
      else G\<lparr>g_node := AList.map_entry n
               (\<lambda>a. a\<lparr>attr_nome := Some nm, attr_partido := Some p, attr_uf := Some u\<rparr>) (g_node G)\<rparr>)"

text \<open>The first half of \<open>add_edge\<close>: an endpoint that is no node yet becomes one, with an
  empty attribute dict.\<close>

definition ensure_node :: "int \<Rightarrow> graph \<Rightarrow> graph" where
  "ensure_node n G =
     (if n \<notin> fst ` set (g_node G)
      then G\<lparr>g_adj := AList.update n [] (g_adj G),
             g_node := AList.update n \<lparr>attr_nome = None, attr_partido = None, attr_uf = None\<rparr> (g_node G)\<rparr>
      else G)"

text \<open>\<open>self._adj[u][v] = {'weight': w}\<close>\<close>

definition adj_set ::
  "int \<Rightarrow> int \<Rightarrow> int \<Rightarrow> (int \<times> (int \<times> int) list) list \<Rightarrow> (int \<times> (int \<times> int) list) list" where
  "adj_set u v w a = AList.map_entry u (AList.update v w) a"

definition add_edge :: "int \<Rightarrow> int \<Rightarrow> int \<Rightarrow> graph \<Rightarrow> graph" where
  "add_edge u v w G =
     (let G2 = ensure_node v (ensure_node u G)
      in G2\<lparr>g_adj := adj_set v u w (adj_set u v w (g_adj G2))\<rparr>)"

definition has_edge :: "graph \<Rightarrow> int \<Rightarrow> int \<Rightarrow> bool" where
  "has_edge G u v =
     (case map_of (g_adj G) u of None \<Rightarrow> False | Some nbrs \<Rightarrow> v \<in> fst ` set nbrs)"

text \<open>\<open>G[u][v]['weight']\<close> as a lookup: \<open>None\<close> where Python raises \<open>KeyError\<close>.\<close>

definition edge_weight :: "graph \<Rightarrow> int \<Rightarrow> int \<Rightarrow> int option" where
  "edge_weight G u v =
     (case map_of (g_adj G) u of None \<Rightarrow> None | Some nbrs \<Rightarrow> map_of nbrs v)"

text \<open>\<open>G[u][v]['weight'] += d\<close>: the shared edge-data dict changes for both directions.\<close>

definition weight_add :: "int \<Rightarrow> int \<Rightarrow> int \<Rightarrow> graph \<Rightarrow> error + graph" where
  "weight_add u v d G =
     (case map_of (g_adj G) u of
        None \<Rightarrow> Inl (KeyError_id u)
      | Some nbrs \<Rightarrow>
          (case map_of nbrs v of
             None \<Rightarrow> Inl (KeyError_id v)
           | Some w \<Rightarrow> Inr (G\<lparr>g_adj := adj_set v u (w + d) (adj_set u v (w + d) (g_adj G))\<rparr>)))"

text \<open>\<open>G.nodes\<close> and \<open>G.edges(data=True)\<close>. The edge view walks the nodes in insertion
  order and reports, for each node, its neighbours in adjacency order, skipping those
  already walked.\<close>

definition node_ids :: "graph \<Rightarrow> int list" where
  "node_ids G = map fst (g_node G)"

fun edges_from :: "int list \<Rightarrow> (int \<times> (int \<times> int) list) list \<Rightarrow> (int \<times> int \<times> int) list" where
  "edges_from seen [] = []"
| "edges_from seen ((n, nbrs) # rest) =
     map (\<lambda>(nbr, w). (n, nbr, w)) (filter (\<lambda>(nbr, w). nbr \<notin> set seen) nbrs)
     @ edges_from (n # seen) rest"

definition edges :: "graph \<Rightarrow> (int \<times> int \<times> int) list" where
  "edges G = edges_from [] (g_adj G)"

definition weight :: "int \<times> int \<times> int \<Rightarrow> int" where
  "weight e = snd (snd e)"

text \<open>\<open>BaseNetwork.get_sorted_edges\<close>: \<open>sorted(self.G.edges(data=True), key=lambda x: x[2]['weight'])\<close>;
  Python's \<open>sorted\<close> is stable, as \<open>sort_key\<close> is.\<close>

definition get_sorted_edges :: "graph \<Rightarrow> (int \<times> int \<times> int) list" where
  "get_sorted_edges G = sort_key weight (edges G)"

section \<open>Loops\<close>

text \<open>A \<open>for\<close> loop whose body may raise: the first error ends it.\<close>

fun for_each :: "('a \<Rightarrow> 's \<Rightarrow> error + 's) \<Rightarrow> 'a list \<Rightarrow> 's \<Rightarrow> error + 's" where
  "for_each f [] s = Inr s"
| "for_each f (x # xs) s = (case f x s of Inl e \<Rightarrow> Inl e | Inr s' \<Rightarrow> for_each f xs s')"

text \<open>\<open>itertools.combinations(xs, 2)\<close>: pairs of positions, in lexicographic order.\<close>

fun combinations :: "'a list \<Rightarrow> ('a \<times> 'a) list" where
  "combinations [] = []"
| "combinations (x # xs) = map (Pair x) xs @ combinations xs"

section \<open>Node population, common to both builders\<close>

definition node_step :: "'r schema \<Rightarrow> 'r dataframe \<Rightarrow> int \<times> string \<Rightarrow> graph \<Rightarrow> error + graph" where
  "node_step sc df = (\<lambda>(dep_id, dep_nome) G.
     case loc_first sc df dep_id (col_partido sc) (get_partido sc) of
       Inl e \<Rightarrow> Inl e
     | Inr partido \<Rightarrow>
         (case loc_first sc df dep_id (col_uf sc) (get_uf sc) of
            Inl e \<Rightarrow> Inl e
          | Inr uf \<Rightarrow> Inr (add_node dep_id dep_nome partido uf G)))"

definition add_all_nodes :: "'r schema \<Rightarrow> 'r dataframe \<Rightarrow> graph \<Rightarrow> error + graph" where
  "add_all_nodes sc df G =
     (case distinct_pairs sc df of
        Inl e \<Rightarrow> Inl e
      | Inr ps \<Rightarrow> for_each (node_step sc df) ps G)"

section \<open>FrenteNetwork.build_network\<close>

text \<open>\<open>df.groupby('id_deputado')['titulo'].apply(set).to_dict()\<close>: the groups come sorted
  by key.\<close>

definition dep_frentes :: "frente_row dataframe \<Rightarrow> error + (int \<times> string set) list" where
  "dep_frentes df =
     (if ''id_deputado'' \<notin> set (columns df) then Inl (KeyError [''id_deputado''])
      else if ''titulo'' \<notin> set (columns df) then Inl (KeyError [''titulo''])
      else Inr (map (\<lambda>d. (d, set (map titulo (filter (\<lambda>r. id_deputado r = d) (rows df)))))
                    (sort (remdups (map id_deputado (rows df))))))"

text \<open>\<open>d.get(k, set())\<close>\<close>

definition dict_get :: "('k \<times> 'v set) list \<Rightarrow> 'k \<Rightarrow> 'v set" where
  "dict_get d k = (case map_of d k of None \<Rightarrow> {} | Some s \<Rightarrow> s)"

definition frente_edge_step :: "(int \<times> string set) list \<Rightarrow> graph \<Rightarrow> int \<times> int \<Rightarrow> graph" where
  "frente_edge_step fr G = (\<lambda>(dep1, dep2).
     let frentes_compartilhadas = dict_get fr dep1 \<inter> dict_get fr dep2;
         peso = card frentes_compartilhadas
     in if peso > 0 then add_edge dep1 dep2 (int peso) G else G)"

definition build_network_frente :: "frente_row dataframe \<Rightarrow> graph \<Rightarrow> error + graph" where
  "build_network_frente df G =
     (case add_all_nodes frente_schema df G of
        Inl e \<Rightarrow> Inl e
      | Inr G1 \<Rightarrow>
          (case distinct_pairs frente_schema df of
             Inl e \<Rightarrow> Inl e
           | Inr ps \<Rightarrow>
               (case dep_frentes df of
                  Inl e \<Rightarrow> Inl e
                | Inr fr \<Rightarrow> Inr (foldl (frente_edge_step fr) G1 (combinations (map fst ps))))))"

section \<open>VotingNetwork.build_network\<close>

text \<open>\<open>df.groupby('id')\<close>: one sub-table per ballot, sorted by ballot id, rows in table
  order.\<close>

definition groupby_id :: "('b::linorder) voto_row dataframe \<Rightarrow> error + ('b \<times> 'b voto_row dataframe) list" where
  "groupby_id df =
     (if ''id'' \<notin> set (columns df) then Inl (KeyError [''id''])
      else Inr (map (\<lambda>k. (k, df\<lparr>rows := filter (\<lambda>r. v_id r = k) (rows df)\<rparr>))
                    (sort (remdups (map v_id (rows df))))))"

text \<open>\<open>grupo.set_index('id_deputado')['tipoVoto'].to_dict()\<close>: a key that occurs again keeps
  its place and takes the later value.\<close>

definition votos_dict :: "'b voto_row dataframe \<Rightarrow> error + (int \<times> string) list" where
  "votos_dict grupo =
     (if ''id_deputado'' \<notin> set (columns grupo) then Inl (KeyError [''id_deputado''])
      else if ''tipoVoto'' \<notin> set (columns grupo) then Inl (KeyError [''tipoVoto''])
      else Inr (foldl (\<lambda>d r. AList.update (v_id_deputado r) (v_tipoVoto r) d) [] (rows grupo)))"

definition vote_step :: "(int \<times> string) list \<Rightarrow> int \<times> int \<Rightarrow> graph \<Rightarrow> error + graph" where
  "vote_step votos = (\<lambda>(dep1, dep2) G.
     let G1 = (if \<not> has_edge G dep1 dep2 then add_edge dep1 dep2 0 G else G)
     in case map_of votos dep1 of
          None \<Rightarrow> Inl (KeyError_id dep1)
        | Some voto1 \<Rightarrow>
            (case map_of votos dep2 of
               None \<Rightarrow> Inl (KeyError_id dep2)
             | Some voto2 \<Rightarrow>
                 if voto1 = voto2 then weight_add dep1 dep2 1 G1
                 else weight_add dep1 dep2 (- 1) G1))"

definition ballot_step :: "'b \<times> 'b voto_row dataframe \<Rightarrow> graph \<Rightarrow> error + graph" where
  "ballot_step = (\<lambda>(votacao_id, grupo) G.
     case votos_dict grupo of
       Inl e \<Rightarrow> Inl e
     | Inr votos \<Rightarrow> for_each (vote_step votos) (combinations (map fst votos)) G)"

definition build_network_voting :: "('b::linorder) voto_row dataframe \<Rightarrow> graph \<Rightarrow> error + graph" where
  "build_network_voting df G =
     (case add_all_nodes voto_schema df G of
        Inl e \<Rightarrow> Inl e
      | Inr G1 \<Rightarrow>
          (case groupby_id df of
             Inl e \<Rightarrow> Inl e
           | Inr gs \<Rightarrow> for_each ballot_step gs G1))"

section \<open>Notions used to state the properties\<close>

text \<open>The columns each builder reads.\<close>

definition frente_columns :: "string list" where
  "frente_columns =
     [''id_deputado'', ''nome_deputado'', ''siglaPartido_deputado'', ''siglaUf_deputado'', ''titulo'']"

definition voto_columns :: "string list" where
  "voto_columns = [''id_deputado'', ''nome'', ''siglaPartido'', ''siglaUf'', ''id'', ''tipoVoto'']"

text \<open>What every graph reachable from \<open>nx.Graph()\<close> satisfies: \<open>_node\<close> and \<open>_adj\<close> have
  the same keys, no node is listed twice, and the two directions of an edge carry the same
  data.\<close>

definition graph_ok :: "graph \<Rightarrow> bool" where
  "graph_ok G \<longleftrightarrow>
     fst ` set (g_adj G) = fst ` set (g_node G) \<and>
     distinct (map fst (g_node G)) \<and>
     (\<forall>u v. edge_weight G u v = edge_weight G v u)"

text \<open>The pairs \<open>(dep1, dep2)\<close> the loops of \<open>VotingNetwork.build_network\<close> visit, in
  order: ballot after ballot, the combinations of the ballot's voters. An edge is inserted
  at the first visit of its pair.\<close>

definition vote_pairs :: "('b::linorder) voto_row dataframe \<Rightarrow> (int \<times> int) list" where
  "vote_pairs df =
     (case groupby_id df of
        Inl e \<Rightarrow> []
      | Inr gs \<Rightarrow>
          concat (map (\<lambda>(votacao_id, grupo).
                    case votos_dict grupo of Inl e \<Rightarrow> [] | Inr votos \<Rightarrow> combinations (map fst votos))
                  gs))"

text \<open>Concrete tables.\<close>

definition voto :: "int \<Rightarrow> string \<Rightarrow> 'b \<Rightarrow> string \<Rightarrow> 'b voto_row" where
  "voto d n k t =
     \<lparr>v_id_deputado = d, v_nome = n, v_siglaPartido = ''PT'', v_siglaUf = ''SP'', v_id = k,
      v_tipoVoto = t\<rparr>"

definition tie_table :: "nat voto_row dataframe" where
  "tie_table =
     \<lparr>columns = voto_columns,
      rows = [voto 1 ''A'' 2 ''Sim'', voto 2 ''B'' 2 ''Sim'', voto 2 ''B'' 1 ''Sim'',
              voto 3 ''C'' 1 ''Sim'']\<rparr>"

text \<open>The table has the four columns the node loop reads.\<close>

definition schema_ok :: "'r schema \<Rightarrow> 'r dataframe \<Rightarrow> bool" where
  "schema_ok sc df \<longleftrightarrow>
     set [col_id sc, col_nome sc, col_partido sc, col_uf sc] \<subseteq> set (columns df)"

text \<open>The first row of the table for a legislator id, if any.\<close>

definition first_row :: "'r schema \<Rightarrow> 'r dataframe \<Rightarrow> int \<Rightarrow> 'r option" where
  "first_row sc df d = find (\<lambda>r. get_id sc r = d) (rows df)"

text \<open>What the node loop iterates over when the columns are there, and what its body does
  to the graph when it does not raise.\<close>

definition id_nome_pairs :: "'r schema \<Rightarrow> 'r dataframe \<Rightarrow> (int \<times> string) list" where
  "id_nome_pairs sc df = drop_duplicates (map (\<lambda>r. (get_id sc r, get_nome sc r)) (rows df))"

definition node_add :: "'r schema \<Rightarrow> 'r dataframe \<Rightarrow> graph \<Rightarrow> int \<times> string \<Rightarrow> graph" where
  "node_add sc df G = (\<lambda>(d, n).
     case first_row sc df d of
       None \<Rightarrow> G
     | Some r \<Rightarrow> add_node d n (get_partido sc r) (get_uf sc r) G)"

text \<open>The set of distinct group labels of a legislator, and the dict the builder makes
  of them when the columns are there.\<close>

definition frentes_of :: "frente_row dataframe \<Rightarrow> int \<Rightarrow> string set" where
  "frentes_of df d = set (map titulo (filter (\<lambda>r. id_deputado r = d) (rows df)))"

definition frentes_dict :: "frente_row dataframe \<Rightarrow> (int \<times> string set) list" where
  "frentes_dict df =
     map (\<lambda>d. (d, frentes_of df d)) (sort (remdups (map id_deputado (rows df))))"

definition peso :: "(int \<times> string set) list \<Rightarrow> int \<Rightarrow> int \<Rightarrow> nat" where
  "peso fr a b = card (dict_get fr a \<inter> dict_get fr b)"

definition frente :: "int \<Rightarrow> string \<Rightarrow> string \<Rightarrow> string \<Rightarrow> string \<Rightarrow> frente_row" where
  "frente d n p u t =
     \<lparr>id_deputado = d, nome_deputado = n, siglaPartido_deputado = p, siglaUf_deputado = u,
      titulo = t\<rparr>"

definition two_fronts_table :: "frente_row dataframe" where
  "two_fronts_table =
     \<lparr>columns = frente_columns,
      rows = [frente 1 ''A'' ''PT'' ''SP'' ''FrenteX'', frente 1 ''A'' ''PT'' ''SP'' ''FrenteY'',
              frente 2 ''B'' ''PSDB'' ''RJ'' ''FrenteY'', frente 2 ''B'' ''PSDB'' ''RJ'' ''FrenteZ'']\<rparr>"

text \<open>The attribute dict a node ends with: the name of the last pair of its id, party and
  state of the first row of its id.\<close>

definition final_attrs :: "'r schema \<Rightarrow> 'r dataframe \<Rightarrow> (int \<times> string) list \<Rightarrow> int \<Rightarrow> node_attrs option" where
  "final_attrs sc df ps d =
     (case map_of (rev ps) d of
        None \<Rightarrow> None
      | Some nm \<Rightarrow>
          (case first_row sc df d of
             None \<Rightarrow> None
           | Some r \<Rightarrow>
               Some \<lparr>attr_nome = Some nm, attr_partido = Some (get_partido sc r),
                     attr_uf = Some (get_uf sc r)\<rparr>))"

text \<open>The running tally of a pair (0 while it has no edge), what one ballot adds to it,
  and how often a list of pairs names a pair, in either direction.\<close>

definition tally :: "graph \<Rightarrow> int \<Rightarrow> int \<Rightarrow> int" where
  "tally G a b = (case edge_weight G a b of None \<Rightarrow> 0 | Some w \<Rightarrow> w)"

definition delta :: "(int \<times> string) list \<Rightarrow> int \<Rightarrow> int \<Rightarrow> int" where
  "delta votos a b = (if map_of votos a = map_of votos b then 1 else - 1)"

definition visits :: "(int \<times> int) list \<Rightarrow> int \<Rightarrow> int \<Rightarrow> nat" where
  "visits ps a b = length (filter (\<lambda>(x, y). (a = x \<and> b = y) \<or> (a = y \<and> b = x)) ps)"

text \<open>The ballots of a table in the order \<open>groupby\<close> yields them, the dict of votes of one
  ballot, and what a ballot adds to the tally of a pair: nothing unless both voted in it.\<close>

definition ballots :: "('b::linorder) voto_row dataframe \<Rightarrow> 'b list" where
  "ballots df = sort (remdups (map v_id (rows df)))"

definition votos_of :: "'b voto_row dataframe \<Rightarrow> 'b \<Rightarrow> (int \<times> string) list" where
  "votos_of df k =
     foldl (\<lambda>d r. AList.update (v_id_deputado r) (v_tipoVoto r) d) []
       (filter (\<lambda>r. v_id r = k) (rows df))"

definition both_voted :: "'b voto_row dataframe \<Rightarrow> int \<Rightarrow> int \<Rightarrow> 'b \<Rightarrow> bool" where
  "both_voted df a b k \<longleftrightarrow>
     map_of (votos_of df k) a \<noteq> None \<and> map_of (votos_of df k) b \<noteq> None"

definition contribution :: "'b voto_row dataframe \<Rightarrow> int \<Rightarrow> int \<Rightarrow> 'b \<Rightarrow> int" where
  "contribution df a b k = (if both_voted df a b k then delta (votos_of df k) a b else 0)"

text \<open>Read off the table: whether a legislator has a row in a ballot, the vote choice of
  the first and of the last such row, and the ballots in which two legislators both have a
  row.\<close>

definition voted :: "'b voto_row dataframe \<Rightarrow> 'b \<Rightarrow> int \<Rightarrow> bool" where
  "voted df k a \<longleftrightarrow> (\<exists>r \<in> set (rows df). v_id r = k \<and> v_id_deputado r = a)"

definition vote :: "'b voto_row dataframe \<Rightarrow> 'b \<Rightarrow> int \<Rightarrow> string option" where
  "vote df k a =
     map_option v_tipoVoto (find (\<lambda>r. v_id r = k \<and> v_id_deputado r = a) (rows df))"

definition last_vote :: "'b voto_row dataframe \<Rightarrow> 'b \<Rightarrow> int \<Rightarrow> string option" where
  "last_vote df k a =
     map_option v_tipoVoto (find (\<lambda>r. v_id r = k \<and> v_id_deputado r = a) (rev (rows df)))"

definition common_ballots :: "('b::linorder) voto_row dataframe \<Rightarrow> int \<Rightarrow> int \<Rightarrow> 'b list" where
  "common_ballots df a b = filter (\<lambda>k. voted df k a \<and> voted df k b) (ballots df)"

text \<open>Legislator 1 has two rows in ballot 1, first \<open>Sim\<close> then \<open>Nao\<close>; legislator 2
  votes \<open>Sim\<close>.\<close>

definition revote_table :: "int voto_row dataframe" where
  "revote_table =
     \<lparr>columns = voto_columns,
      rows = [voto 1 ''A'' 1 ''Sim'', voto 2 ''B'' 1 ''Sim'', voto 1 ''A'' 1 ''Nao'']\<rparr>"

text \<open>Legislators 1 and 2 vote in three ballots: the same way in ballots 1 and 2, not in
  ballot 3. Legislator 3 votes in ballots 1 and 3 only, with legislator 1 in ballot 1 and
  against in ballot 3.\<close>

definition three_ballots_table :: "int voto_row dataframe" where
  "three_ballots_table =
     \<lparr>columns = voto_columns,
      rows = [voto 1 ''A'' 1 ''Sim'', voto 2 ''B'' 1 ''Sim'', voto 3 ''C'' 1 ''Sim'',
              voto 1 ''A'' 2 ''Nao'', voto 2 ''B'' 2 ''Nao'',
              voto 1 ''A'' 3 ''Sim'', voto 2 ''B'' 3 ''Nao'', voto 3 ''C'' 3 ''Nao'']\<rparr>"

text \<open>Tables with no row that lack the party and state columns, and for the voting policy
  the vote column too.\<close>

definition bare_frente_table :: "frente_row dataframe" where
  "bare_frente_table = \<lparr>columns = [''id_deputado'', ''nome_deputado'', ''titulo''], rows = []\<rparr>"

definition bare_voto_table :: "int voto_row dataframe" where
  "bare_voto_table = \<lparr>columns = [''id_deputado'', ''nome'', ''id''], rows = []\<rparr>"

text \<open>A membership table with one row and no \<open>titulo\<close> column.\<close>

definition no_titulo_table :: "frente_row dataframe" where
  "no_titulo_table =
     \<lparr>columns = [''id_deputado'', ''nome_deputado'', ''siglaPartido_deputado'', ''siglaUf_deputado''],
      rows = [frente 1 ''A'' ''PT'' ''SP'' ''FrenteX'']\<rparr>"

text \<open>A voting table with one row and no \<open>tipoVoto\<close> column.\<close>

definition no_tipoVoto_table :: "int voto_row dataframe" where
  "no_tipoVoto_table =
     \<lparr>columns = [''id_deputado'', ''nome'', ''siglaPartido'', ''siglaUf'', ''id''],
      rows = [voto 1 ''A'' 1 ''Sim'']\<rparr>"

text \<open>A membership table in which legislator 1 has two rows with the same group and two
  different names.\<close>

definition two_names_table :: "frente_row dataframe" where
  "two_names_table =
     \<lparr>columns = frente_columns,
      rows = [frente 1 ''A'' ''PT'' ''SP'' ''FrenteX'', frente 1 ''B'' ''PL'' ''RJ'' ''FrenteX'']\<rparr>"

text \<open>Every legislator id of the table comes with a single name.\<close>

definition single_names :: "'r schema \<Rightarrow> 'r dataframe \<Rightarrow> bool" where
  "single_names sc df \<longleftrightarrow>
     (\<forall>r \<in> set (rows df). \<forall>r' \<in> set (rows df).
        get_id sc r = get_id sc r' \<longrightarrow> get_nome sc r = get_nome sc r')"

section \<open>The graph operations, seen through nodes and weights\<close>

lemma graph_ok_empty: "graph_ok empty_graph"
  by (simp add: graph_ok_def empty_graph_def edge_weight_def)

lemma has_edge_iff: "has_edge G u v \<longleftrightarrow> edge_weight G u v \<noteq> None"
  by (simp add: has_edge_def edge_weight_def dom_map_of_conv_image_fst[symmetric] domIff
      split: option.splits)

lemma map_of_adj_set:
  "map_of (adj_set u v w a) x =
     (if x = u then map_option (AList.update v w) (map_of a u) else map_of a x)"
  by (auto simp: adj_set_def map_of_map_entry split: option.splits)

lemma keys_adj_set: "fst ` set (adj_set u v w a) = fst ` set a"
  by (simp add: adj_set_def dom_map_entry)

lemma lookup_adj_set:
  assumes "u \<in> fst ` set A"
  shows "(case map_of (adj_set u v w A) a of None \<Rightarrow> None | Some nb \<Rightarrow> map_of nb b) =
     (if a = u \<and> b = v then Some w
      else (case map_of A a of None \<Rightarrow> None | Some nb \<Rightarrow> map_of nb b))"
proof -
  obtain nu where nu: "map_of A u = Some nu"
    using assms by (metis map_of_eq_None_iff not_Some_eq)
  show ?thesis
    by (simp add: map_of_adj_set nu update_conv)
qed

lemma edge_weight_adj_set2:
  assumes "u \<in> fst ` set (g_adj G)" "v \<in> fst ` set (g_adj G)"
  shows "edge_weight (G\<lparr>g_adj := adj_set v u w (adj_set u v w (g_adj G))\<rparr>) a b =
     (if (a = u \<and> b = v) \<or> (a = v \<and> b = u) then Some w else edge_weight G a b)"
proof -
  let ?A = "adj_set u v w (g_adj G)"
  have v': "v \<in> fst ` set ?A"
    using assms(2) by (simp add: keys_adj_set)
  have "edge_weight (G\<lparr>g_adj := adj_set v u w ?A\<rparr>) a b =
      (case map_of (adj_set v u w ?A) a of None \<Rightarrow> None | Some nb \<Rightarrow> map_of nb b)"
    by (simp add: edge_weight_def)
  also have "\<dots> = (if a = v \<and> b = u then Some w
      else (case map_of ?A a of None \<Rightarrow> None | Some nb \<Rightarrow> map_of nb b))"
    by (rule lookup_adj_set[OF v'])
  also have "(case map_of ?A a of None \<Rightarrow> None | Some nb \<Rightarrow> map_of nb b) =
      (if a = u \<and> b = v then Some w else edge_weight G a b)"
    unfolding edge_weight_def by (rule lookup_adj_set[OF assms(1)])
  finally show ?thesis by presburger
qed

lemma node_ids_add_node: "set (node_ids (add_node n nm p u G)) = insert n (set (node_ids G))"
  by (auto simp: node_ids_def add_node_def dom_update dom_map_entry)

lemma edge_weight_add_node:
  "fst ` set (g_adj G) = fst ` set (g_node G) \<Longrightarrow>
   edge_weight (add_node n nm p u G) a b = edge_weight G a b"
  apply (auto simp: add_node_def edge_weight_def update_conv split: option.splits)
  apply (metis map_of_eq_None_iff option.distinct(1))+
  done

lemma distinct_add_node:
  "distinct (map fst (g_node G)) \<Longrightarrow> distinct (map fst (g_node (add_node n nm p u G)))"
  by (simp add: add_node_def distinct_update distinct_map_entry)

lemma distinct_ensure_node:
  "distinct (map fst (g_node G)) \<Longrightarrow> distinct (map fst (g_node (ensure_node n G)))"
  by (simp add: ensure_node_def distinct_update)

lemma distinct_add_edge:
  "distinct (map fst (g_node G)) \<Longrightarrow> distinct (map fst (g_node (add_edge u v w G)))"
  by (simp add: add_edge_def Let_def distinct_ensure_node)

lemma keys_add_node:
  "fst ` set (g_adj G) = fst ` set (g_node G) \<Longrightarrow>
   fst ` set (g_adj (add_node n nm p u G)) = fst ` set (g_node (add_node n nm p u G))"
  by (simp add: add_node_def dom_update dom_map_entry)

lemma graph_ok_add_node: "graph_ok G \<Longrightarrow> graph_ok (add_node n nm p u G)"
  unfolding graph_ok_def
  by (simp add: keys_add_node edge_weight_add_node distinct_add_node)

lemma keys_ensure_node:
  "fst ` set (g_adj G) = fst ` set (g_node G) \<Longrightarrow>
   fst ` set (g_adj (ensure_node n G)) = fst ` set (g_node (ensure_node n G))
   \<and> n \<in> fst ` set (g_adj (ensure_node n G))
   \<and> fst ` set (g_node (ensure_node n G)) = insert n (fst ` set (g_node G))"
  by (auto simp: ensure_node_def dom_update)

lemma map_of_adj_ensure_node:
  "fst ` set (g_adj G) = fst ` set (g_node G) \<Longrightarrow>
   map_of (g_adj (ensure_node n G)) x =
     (if x = n \<and> n \<notin> fst ` set (g_node G) then Some [] else map_of (g_adj G) x)"
  by (auto simp: ensure_node_def update_conv)

lemma edge_weight_ensure_node:
  "fst ` set (g_adj G) = fst ` set (g_node G) \<Longrightarrow>
   edge_weight (ensure_node n G) a b = edge_weight G a b"
  apply (auto simp: edge_weight_def map_of_adj_ensure_node split: option.splits)
  apply (metis map_of_eq_None_iff option.distinct(1))+
  done

lemma keys_add_edge:
  "fst ` set (g_adj G) = fst ` set (g_node G) \<Longrightarrow>
   fst ` set (g_adj (add_edge u v w G)) = fst ` set (g_node (add_edge u v w G))
   \<and> fst ` set (g_node (add_edge u v w G)) = insert u (insert v (fst ` set (g_node G)))"
  using keys_ensure_node[of G u] keys_ensure_node[of "ensure_node u G" v]
  by (auto simp: add_edge_def Let_def keys_adj_set)

lemma edge_weight_add_edge:
  assumes "fst ` set (g_adj G) = fst ` set (g_node G)"
  shows "edge_weight (add_edge u v w G) a b =
     (if (a = u \<and> b = v) \<or> (a = v \<and> b = u) then Some w else edge_weight G a b)"
proof -
  let ?G1 = "ensure_node u G" and ?G2 = "ensure_node v (ensure_node u G)"
  have k1: "fst ` set (g_adj ?G1) = fst ` set (g_node ?G1)" "u \<in> fst ` set (g_adj ?G1)"
    using keys_ensure_node[OF assms, of u] by auto
  have k2: "v \<in> fst ` set (g_adj ?G2)" "u \<in> fst ` set (g_adj ?G2)"
    using keys_ensure_node[OF k1(1), of v] k1 by auto
  have e2: "edge_weight ?G2 a b = edge_weight G a b"
    by (simp add: edge_weight_ensure_node k1(1) assms)
  have "add_edge u v w G = ?G2\<lparr>g_adj := adj_set v u w (adj_set u v w (g_adj ?G2))\<rparr>"
    by (simp add: add_edge_def Let_def)
  then show ?thesis
    using edge_weight_adj_set2[OF k2(2) k2(1), of w a b] e2 by simp
qed

lemma graph_ok_add_edge: "graph_ok G \<Longrightarrow> graph_ok (add_edge u v w G)"
  unfolding graph_ok_def
  using keys_add_edge[of G u v w] edge_weight_add_edge[of G u v w] distinct_add_edge[of G u v w]
  by auto

lemma node_ids_add_edge:
  "graph_ok G \<Longrightarrow> set (node_ids (add_edge u v w G)) = insert u (insert v (set (node_ids G)))"
  using keys_add_edge[of G u v w] by (simp add: graph_ok_def node_ids_def)

lemma weight_add_Inr:
  assumes "graph_ok G" "edge_weight G u v = Some w"
  shows "\<exists>G'. weight_add u v d G = Inr G' \<and> graph_ok G' \<and> g_node G' = g_node G \<and>
     (\<forall>a b. edge_weight G' a b =
        (if (a = u \<and> b = v) \<or> (a = v \<and> b = u) then Some (w + d) else edge_weight G a b))"
proof -
  from assms(2) obtain nu where nu: "map_of (g_adj G) u = Some nu" "map_of nu v = Some w"
    by (auto simp: edge_weight_def split: option.splits)
  from assms have "edge_weight G v u = Some w" by (simp add: graph_ok_def)
  then obtain nv where nv: "map_of (g_adj G) v = Some nv"
    by (auto simp: edge_weight_def split: option.splits)
  have ku: "u \<in> fst ` set (g_adj G)" using nu(1) by (metis map_of_eq_None_iff option.distinct(1))
  have kv: "v \<in> fst ` set (g_adj G)" using nv by (metis map_of_eq_None_iff option.distinct(1))
  let ?G' = "G\<lparr>g_adj := adj_set v u (w + d) (adj_set u v (w + d) (g_adj G))\<rparr>"
  have 1: "weight_add u v d G = Inr ?G'" by (simp add: weight_add_def nu)
  note 2 = edge_weight_adj_set2[OF ku kv, of "w + d"]
  have 3: "graph_ok ?G'"
    using assms(1) unfolding graph_ok_def by (simp add: 2 keys_adj_set)
  show ?thesis using 1 2 3 by simp
qed

section \<open>The sorted-edge view\<close>

lemmas build_voting_defs =
  build_network_voting_def add_all_nodes_def distinct_pairs_def missing_def
  voto_schema_def voto_columns_def drop_duplicates_def voto_def node_step_def loc_first_def
  add_node_def empty_graph_def groupby_id_def ballot_step_def votos_dict_def vote_step_def
  has_edge_def add_edge_def ensure_node_def adj_set_def weight_add_def Let_def

text \<open>
  C4 (as stated): \<open>get_sorted_edges\<close> breaks ties between edges of equal weight by edge
  insertion order. It does not. In \<open>tie_table\<close> legislators 1 and 2 vote in ballot 2,
  legislators 2 and 3 in ballot 1, all the same way. The builder visits ballot 1 first, so
  the edge (2, 3) is inserted before the edge (1, 2); both end with weight 1; the sorted
  view lists (1, 2) first, because the edge view of the graph walks the nodes in node
  insertion order.
\<close>

theorem sorted_edges_insertion_order_counterexample:
  "vote_pairs tie_table = [(2, 3), (1, 2)] \<and>
   map_sum id get_sorted_edges (build_network_voting tie_table empty_graph)
     = Inr [(1, 2, 1), (2, 3, 1)]"
  by (simp add: vote_pairs_def tie_table_def build_voting_defs
      get_sorted_edges_def edges_def weight_def)

text \<open>
  C4 (amended): for every graph, \<open>get_sorted_edges\<close> returns all the edges of the graph's
  edge view, each as often as the view lists it, in non-decreasing order of weight, and
  edges of equal weight keep the order the edge view gives them (nodes in node insertion
  order, then each node's neighbours in adjacency order), which is the stability of the
  sort. The result is a function of the graph alone, so a second call returns the same
  sequence.
\<close>

theorem sorted_edges_stable:
  "mset (get_sorted_edges G) = mset (edges G) \<and>
   sorted (map weight (get_sorted_edges G)) \<and>
   (\<forall>k. filter (\<lambda>e. weight e = k) (get_sorted_edges G) = filter (\<lambda>e. weight e = k) (edges G))"
  by (simp add: get_sorted_edges_def sort_key_stable)

section \<open>Node population\<close>

lemma case_filter_find:
  "(case filter P xs of [] \<Rightarrow> a | x # _ \<Rightarrow> f x) = (case find P xs of None \<Rightarrow> a | Some x \<Rightarrow> f x)"
  by (induction xs) auto

lemma loc_first_present:
  "col_id sc \<in> set (columns df) \<Longrightarrow> c \<in> set (columns df) \<Longrightarrow>
   loc_first sc df d c g = (case first_row sc df d of None \<Rightarrow> Inl IndexError | Some r \<Rightarrow> Inr (g r))"
  by (simp add: loc_first_def first_row_def case_filter_find)

lemma first_row_Some:
  "d \<in> get_id sc ` set (rows df) \<Longrightarrow>
   \<exists>r. first_row sc df d = Some r \<and> r \<in> set (rows df) \<and> get_id sc r = d"
  unfolding first_row_def
  by (cases "find (\<lambda>r. get_id sc r = d) (rows df)")
     (auto simp: find_None_iff find_Some_iff)

lemma node_step_present:
  assumes "schema_ok sc df" "d \<in> get_id sc ` set (rows df)"
  shows "node_step sc df (d, n) G = Inr (node_add sc df G (d, n))"
proof -
  obtain r where "first_row sc df d = Some r"
    using first_row_Some[OF assms(2)] by blast
  then show ?thesis
    using assms(1) by (simp add: node_step_def node_add_def loc_first_present schema_ok_def)
qed

lemma for_each_pure:
  "(\<And>x s. x \<in> set xs \<Longrightarrow> f x s = Inr (g s x)) \<Longrightarrow> for_each f xs s = Inr (foldl g s xs)"
  by (induction xs arbitrary: s) auto

lemma set_drop_duplicates: "set (drop_duplicates xs) = set xs"
  by (simp add: drop_duplicates_def)

lemma distinct_drop_duplicates: "distinct (drop_duplicates xs)"
  by (simp add: drop_duplicates_def)

lemma ids_id_nome_pairs: "fst ` set (id_nome_pairs sc df) = get_id sc ` set (rows df)"
  by (force simp: id_nome_pairs_def set_drop_duplicates)

lemma distinct_pairs_present:
  "schema_ok sc df \<Longrightarrow> distinct_pairs sc df = Inr (id_nome_pairs sc df)"
  by (simp add: distinct_pairs_def missing_def schema_ok_def id_nome_pairs_def)

lemma add_all_nodes_present:
  assumes "schema_ok sc df"
  shows "add_all_nodes sc df G = Inr (foldl (node_add sc df) G (id_nome_pairs sc df))"
proof -
  have "for_each (node_step sc df) (id_nome_pairs sc df) G =
        Inr (foldl (node_add sc df) G (id_nome_pairs sc df))"
  proof (rule for_each_pure)
    fix x s assume "x \<in> set (id_nome_pairs sc df)"
    then have "fst x \<in> get_id sc ` set (rows df)"
      using ids_id_nome_pairs[of sc df] by (metis imageI)
    then show "node_step sc df x s = Inr (node_add sc df s x)"
      using node_step_present[OF assms, of "fst x" "snd x" s] by simp
  qed
  then show ?thesis
    by (simp add: add_all_nodes_def distinct_pairs_present[OF assms])
qed

lemma schema_ok_frente: "set frente_columns \<subseteq> set (columns df) \<Longrightarrow> schema_ok frente_schema df"
  by (simp add: schema_ok_def frente_schema_def frente_columns_def)

lemma schema_ok_voto: "set voto_columns \<subseteq> set (columns df) \<Longrightarrow> schema_ok voto_schema df"
  by (simp add: schema_ok_def voto_schema_def voto_columns_def)

lemma graph_ok_node_add: "graph_ok G \<Longrightarrow> graph_ok (node_add sc df G x)"
  by (cases x) (simp add: node_add_def graph_ok_add_node split: option.splits)

lemma graph_ok_foldl_node_add: "graph_ok G \<Longrightarrow> graph_ok (foldl (node_add sc df) G ps)"
  by (induction ps arbitrary: G) (simp_all add: graph_ok_node_add)

lemma edge_weight_node_add:
  "graph_ok G \<Longrightarrow> edge_weight (node_add sc df G x) a b = edge_weight G a b"
  by (cases x) (simp add: node_add_def edge_weight_add_node graph_ok_def split: option.splits)

lemma edge_weight_foldl_node_add:
  "graph_ok G \<Longrightarrow> edge_weight (foldl (node_add sc df) G ps) a b = edge_weight G a b"
  by (induction ps arbitrary: G) (simp_all add: graph_ok_node_add edge_weight_node_add)

lemma node_ids_foldl_node_add:
  "fst ` set ps \<subseteq> get_id sc ` set (rows df) \<Longrightarrow>
   set (node_ids (foldl (node_add sc df) G ps)) = set (node_ids G) \<union> fst ` set ps"
proof (induction ps arbitrary: G)
  case Nil
  then show ?case by simp
next
  case (Cons x ps)
  obtain d n where x: "x = (d, n)" by (cases x)
  with Cons.prems obtain r where "first_row sc df d = Some r"
    using first_row_Some[of d sc df] by auto
  then have "set (node_ids (node_add sc df G x)) = insert d (set (node_ids G))"
    by (simp add: x node_add_def node_ids_add_node)
  with Cons show ?case by (auto simp: x)
qed

lemma map_of_node_add_node:
  "map_of (g_node (add_node n nm p u G)) x =
     (if x = n then Some \<lparr>attr_nome = Some nm, attr_partido = Some p, attr_uf = Some u\<rparr>
      else map_of (g_node G) x)"
proof (cases "n \<in> fst ` set (g_node G)")
  case True
  then obtain a where "map_of (g_node G) n = Some a"
    by (metis map_of_eq_None_iff not_Some_eq)
  with True show ?thesis
    by (simp add: add_node_def map_of_map_entry)
next
  case False
  then show ?thesis by (simp add: add_node_def update_conv)
qed

section \<open>Empty input\<close>

text \<open>
  C7: on a table with zero rows that has the columns the builder reads, \<open>build_network\<close>
  of either policy raises nothing and leaves the graph of a fresh instance as it was
  created: no node and no edge.
\<close>

theorem empty_table_empty_graph:
  assumes "rows df = []" "set frente_columns \<subseteq> set (columns df)"
    and "rows dv = []" "set voto_columns \<subseteq> set (columns dv)"
  shows "build_network_frente df empty_graph = Inr empty_graph \<and>
         build_network_voting dv empty_graph = Inr empty_graph \<and>
         node_ids empty_graph = [] \<and> edges empty_graph = []"
proof -
  have f: "build_network_frente df empty_graph = Inr empty_graph"
    using assms(1,2)
    by (simp add: build_network_frente_def add_all_nodes_def distinct_pairs_def missing_def
        frente_schema_def frente_columns_def drop_duplicates_def dep_frentes_def)
  have v: "build_network_voting dv empty_graph = Inr empty_graph"
    using assms(3,4)
    by (simp add: build_network_voting_def add_all_nodes_def distinct_pairs_def missing_def
        voto_schema_def voto_columns_def drop_duplicates_def groupby_id_def)
  show ?thesis using f v by (simp add: node_ids_def edges_def empty_graph_def)
qed

theorem empty_table_empty_graph_witness:
  "build_network_frente \<lparr>columns = frente_columns, rows = []\<rparr> empty_graph = Inr empty_graph \<and>
   build_network_voting \<lparr>columns = voto_columns, rows = ([] :: nat voto_row list)\<rparr> empty_graph
     = Inr empty_graph \<and>
   node_ids empty_graph = [] \<and> edges empty_graph = []"
  using empty_table_empty_graph[of "\<lparr>columns = frente_columns, rows = []\<rparr>"
      "\<lparr>columns = voto_columns, rows = ([] :: nat voto_row list)\<rparr>"]
  by simp

section \<open>Membership policy\<close>

lemma dep_frentes_present:
  "set frente_columns \<subseteq> set (columns df) \<Longrightarrow> dep_frentes df = Inr (frentes_dict df)"
  by (simp add: dep_frentes_def frente_columns_def frentes_dict_def frentes_of_def)

lemma dict_get_frentes_dict: "dict_get (frentes_dict df) d = frentes_of df d"
proof (cases "d \<in> id_deputado ` set (rows df)")
  case True
  then show ?thesis
    by (simp add: dict_get_def frentes_dict_def map_of_map_restrict)
next
  case False
  then have "filter (\<lambda>r. id_deputado r = d) (rows df) = []"
    by (auto simp: filter_empty_conv)
  with False show ?thesis
    by (simp add: dict_get_def frentes_dict_def map_of_map_restrict frentes_of_def)
qed

lemma peso_frentes_dict:
  "peso (frentes_dict df) a b = card (frentes_of df a \<inter> frentes_of df b)"
  by (simp add: peso_def dict_get_frentes_dict)

lemma peso_sym: "peso fr a b = peso fr b a"
  by (simp add: peso_def Int_commute)

lemma frente_edge_step_eq:
  "frente_edge_step fr G (x, y) =
     (if 0 < peso fr x y then add_edge x y (int (peso fr x y)) G else G)"
  by (simp add: frente_edge_step_def peso_def Let_def)

lemma graph_ok_frente_edge_step: "graph_ok G \<Longrightarrow> graph_ok (frente_edge_step fr G p)"
  by (cases p) (simp add: frente_edge_step_eq graph_ok_add_edge)

lemma graph_ok_foldl_frente:
  "graph_ok G \<Longrightarrow> graph_ok (foldl (frente_edge_step fr) G ps)"
  by (induction ps arbitrary: G) (simp_all add: graph_ok_frente_edge_step)

lemma edge_weight_frente_edge_step:
  assumes "graph_ok G"
  shows "edge_weight (frente_edge_step fr G (x, y)) a b =
     (if ((a = x \<and> b = y) \<or> (a = y \<and> b = x)) \<and> 0 < peso fr x y
      then Some (int (peso fr a b)) else edge_weight G a b)"
proof -
  have k: "fst ` set (g_adj G) = fst ` set (g_node G)"
    using assms by (simp add: graph_ok_def)
  show ?thesis
    using peso_sym[of fr x y]
    by (auto simp: frente_edge_step_eq edge_weight_add_edge[OF k])
qed

lemma edge_weight_foldl_frente:
  "graph_ok G \<Longrightarrow>
   edge_weight (foldl (frente_edge_step fr) G ps) a b =
     (if \<exists>(x, y) \<in> set ps. ((a = x \<and> b = y) \<or> (a = y \<and> b = x)) \<and> 0 < peso fr x y
      then Some (int (peso fr a b)) else edge_weight G a b)"
proof (induction ps arbitrary: G)
  case Nil
  then show ?case by simp
next
  case (Cons p ps)
  obtain x y where p: "p = (x, y)" by (cases p)
  have ok: "graph_ok (frente_edge_step fr G p)"
    using Cons.prems by (rule graph_ok_frente_edge_step)
  show ?case
    using Cons.IH[OF ok] edge_weight_frente_edge_step[OF Cons.prems, of fr x y a b]
    by (auto simp: p)
qed

lemma node_ids_frente_edge_step:
  "graph_ok G \<Longrightarrow> x \<in> set (node_ids G) \<Longrightarrow> y \<in> set (node_ids G) \<Longrightarrow>
   set (node_ids (frente_edge_step fr G (x, y))) = set (node_ids G)"
  by (auto simp: frente_edge_step_eq node_ids_add_edge)

lemma node_ids_foldl_frente:
  "graph_ok G \<Longrightarrow> set ps \<subseteq> set (node_ids G) \<times> set (node_ids G) \<Longrightarrow>
   set (node_ids (foldl (frente_edge_step fr) G ps)) = set (node_ids G)"
proof (induction ps arbitrary: G)
  case Nil
  then show ?case by simp
next
  case (Cons p ps)
  obtain x y where p: "p = (x, y)" by (cases p)
  have n: "set (node_ids (frente_edge_step fr G p)) = set (node_ids G)"
    using Cons.prems by (simp add: p node_ids_frente_edge_step)
  have ok: "graph_ok (frente_edge_step fr G p)"
    using Cons.prems(1) by (rule graph_ok_frente_edge_step)
  show ?case
    using Cons.IH[OF ok] Cons.prems(2) n by simp
qed

lemma set_combinations: "set (combinations xs) \<subseteq> set xs \<times> set xs"
  by (induction xs) auto

lemma combinations_covers:
  "a \<in> set xs \<Longrightarrow> b \<in> set xs \<Longrightarrow> a \<noteq> b \<Longrightarrow>
   (a, b) \<in> set (combinations xs) \<or> (b, a) \<in> set (combinations xs)"
  by (induction xs) auto

lemma build_network_frente_present:
  assumes "set frente_columns \<subseteq> set (columns df)"
  shows "build_network_frente df G =
     Inr (foldl (frente_edge_step (frentes_dict df))
            (foldl (node_add frente_schema df) G (id_nome_pairs frente_schema df))
            (combinations (map fst (id_nome_pairs frente_schema df))))"
  using assms
  by (simp add: build_network_frente_def add_all_nodes_present schema_ok_frente
      distinct_pairs_present dep_frentes_present)

lemma frente_ids: "get_id frente_schema = id_deputado"
  by (simp add: frente_schema_def)

text \<open>
  C1: on a table that has the columns of the membership policy, \<open>build_network\<close> on a
  fresh instance succeeds, and for any two distinct legislator ids of the table there is
  an edge between them exactly if their sets of group labels intersect; its weight is then
  the size of the intersection, in both directions; a pair sharing no group has no edge.
\<close>

theorem frente_edge_correct:
  assumes "set frente_columns \<subseteq> set (columns df)"
    and "a \<in> id_deputado ` set (rows df)" "b \<in> id_deputado ` set (rows df)" "a \<noteq> b"
  shows "\<exists>G. build_network_frente df empty_graph = Inr G \<and>
     (has_edge G a b \<longleftrightarrow> frentes_of df a \<inter> frentes_of df b \<noteq> {}) \<and>
     edge_weight G a b =
       (if frentes_of df a \<inter> frentes_of df b = {} then None
        else Some (int (card (frentes_of df a \<inter> frentes_of df b)))) \<and>
     edge_weight G b a = edge_weight G a b"
proof -
  let ?ps = "id_nome_pairs frente_schema df"
  let ?G1 = "foldl (node_add frente_schema df) empty_graph ?ps"
  let ?G = "foldl (frente_edge_step (frentes_dict df)) ?G1 (combinations (map fst ?ps))"
  have b: "build_network_frente df empty_graph = Inr ?G"
    by (rule build_network_frente_present[OF assms(1)])
  have ok1: "graph_ok ?G1"
    by (simp add: graph_ok_foldl_node_add graph_ok_empty)
  have e1: "edge_weight ?G1 a b = None"
    by (simp add: edge_weight_foldl_node_add graph_ok_empty) (simp add: edge_weight_def empty_graph_def)
  have ids: "set (map fst ?ps) = id_deputado ` set (rows df)"
    using ids_id_nome_pairs[of frente_schema df] by (simp add: frente_ids)
  have cov: "(a, b) \<in> set (combinations (map fst ?ps)) \<or> (b, a) \<in> set (combinations (map fst ?ps))"
    using assms(2,3,4) ids by (intro combinations_covers) simp_all
  have fin: "finite (frentes_of df a \<inter> frentes_of df b)"
    by (simp add: frentes_of_def)
  have w: "edge_weight ?G a b =
       (if frentes_of df a \<inter> frentes_of df b = {} then None
        else Some (int (card (frentes_of df a \<inter> frentes_of df b))))"
  proof (cases "frentes_of df a \<inter> frentes_of df b = {}")
    case True
    then have "peso (frentes_dict df) x y = 0"
      if "(a = x \<and> b = y) \<or> (a = y \<and> b = x)" for x y
      using that by (auto simp: peso_frentes_dict Int_commute)
    then show ?thesis
      using True e1 by (auto simp: edge_weight_foldl_frente[OF ok1])
  next
    case False
    then have "0 < peso (frentes_dict df) a b" "0 < peso (frentes_dict df) b a"
      using fin by (auto simp: peso_frentes_dict card_gt_0_iff Int_commute)
    then show ?thesis
      using False cov
      by (auto simp: edge_weight_foldl_frente[OF ok1] peso_frentes_dict)
  qed
  have "graph_ok ?G"
    using ok1 by (rule graph_ok_foldl_frente)
  then have s: "edge_weight ?G b a = edge_weight ?G a b"
    by (simp add: graph_ok_def)
  show ?thesis
    using b w s by (auto simp: has_edge_iff)
qed

theorem frente_edge_correct_witness:
  "\<exists>G. build_network_frente two_fronts_table empty_graph = Inr G \<and> has_edge G 1 2 \<and>
     edge_weight G 1 2 = Some 1 \<and> edge_weight G 2 1 = Some 1"
proof -
  have h: "set frente_columns \<subseteq> set (columns two_fronts_table)"
    "1 \<in> id_deputado ` set (rows two_fronts_table)"
    "2 \<in> id_deputado ` set (rows two_fronts_table)" "(1::int) \<noteq> 2"
    by (simp_all add: two_fronts_table_def frente_def)
  have i: "frentes_of two_fronts_table 1 \<inter> frentes_of two_fronts_table 2 = {''FrenteY''}"
    by (simp add: two_fronts_table_def frente_def frentes_of_def)
  from frente_edge_correct[OF h] show ?thesis
    unfolding i by auto
qed

section \<open>Node attributes\<close>

lemma map_of_node_add:
  "map_of (g_node (node_add sc df G (d, n))) x =
     (case final_attrs sc df [(d, n)] x of None \<Rightarrow> map_of (g_node G) x | Some a \<Rightarrow> Some a)"
  by (simp add: node_add_def final_attrs_def map_of_node_add_node split: option.splits)

lemma final_attrs_snoc:
  "final_attrs sc df (ps @ [(d, n)]) x =
     (case final_attrs sc df [(d, n)] x of None \<Rightarrow> final_attrs sc df ps x | Some a \<Rightarrow> Some a)"
  by (simp add: final_attrs_def split: option.splits)

lemma map_of_foldl_node_add:
  "map_of (g_node (foldl (node_add sc df) G ps)) x =
     (case final_attrs sc df ps x of None \<Rightarrow> map_of (g_node G) x | Some a \<Rightarrow> Some a)"
proof (induction ps rule: rev_induct)
  case Nil
  then show ?case by (simp add: final_attrs_def)
next
  case (snoc p ps)
  obtain d n where p: "p = (d, n)" by (cases p)
  show ?case
    unfolding p foldl_append foldl_Cons foldl_Nil map_of_node_add final_attrs_snoc snoc.IH
    by (simp split: option.splits)
qed

section \<open>Building twice\<close>

lemma map_fst_map_entry: "map fst (AList.map_entry k f xs) = map fst xs"
  by (induction xs) auto

lemma map_entry_triv: "map_of xs k = Some v \<Longrightarrow> f v = v \<Longrightarrow> AList.map_entry k f xs = xs"
  by (induction xs) (auto split: if_splits)

lemma alist_eqI:
  "map fst xs = map fst ys \<Longrightarrow> distinct (map fst xs) \<Longrightarrow> map_of xs = map_of ys \<Longrightarrow> xs = ys"
proof (induction xs arbitrary: ys)
  case Nil
  then show ?case by simp
next
  case (Cons x xs)
  then obtain y ys' where ys: "ys = y # ys'" by (cases ys) auto
  with Cons.prems have k: "fst x = fst y" "map fst xs = map fst ys'" by auto
  have "map_of (x # xs) (fst x) = map_of ys (fst x)"
    using Cons.prems(3) by (rule fun_cong)
  then have v: "snd x = snd y" using k ys by simp
  have "map_of xs z = map_of ys' z" for z
  proof (cases "z = fst x")
    case True
    then have "z \<notin> fst ` set xs" "z \<notin> fst ` set ys'"
      using Cons.prems(2) k by (auto simp flip: set_map)
    then show ?thesis by (simp add: map_of_eq_None_iff[THEN iffD2])
  next
    case False
    then show ?thesis
      using fun_cong[OF Cons.prems(3), of z] k ys by simp
  qed
  then have "map_of xs = map_of ys'" by (rule ext)
  then have "xs = ys'" using Cons.IH k Cons.prems(2) by simp
  then show ?case using k v ys by (simp add: prod_eq_iff)
qed

lemma add_edge_same:
  assumes "graph_ok G" "edge_weight G u v = Some w"
  shows "add_edge u v w G = G"
proof -
  from assms(2) obtain nu where nu: "map_of (g_adj G) u = Some nu" "map_of nu v = Some w"
    by (auto simp: edge_weight_def split: option.splits)
  from assms have "edge_weight G v u = Some w" by (simp add: graph_ok_def)
  then obtain nv where nv: "map_of (g_adj G) v = Some nv" "map_of nv u = Some w"
    by (auto simp: edge_weight_def split: option.splits)
  have ku: "u \<in> fst ` set (g_node G)" "v \<in> fst ` set (g_node G)"
    using nu(1) nv(1) assms(1) unfolding graph_ok_def
    by (metis map_of_eq_None_iff option.distinct(1))+
  have 1: "adj_set u v w (g_adj G) = g_adj G"
    unfolding adj_set_def by (rule map_entry_triv[OF nu(1)]) (simp add: update_triv nu(2))
  have 2: "adj_set v u w (g_adj G) = g_adj G"
    unfolding adj_set_def by (rule map_entry_triv[OF nv(1)]) (simp add: update_triv nv(2))
  show ?thesis
    by (simp add: add_edge_def ensure_node_def ku 1 2)
qed

lemma foldl_fixed: "(\<And>x. x \<in> set xs \<Longrightarrow> f s x = s) \<Longrightarrow> foldl f s xs = s"
  by (induction xs) simp_all

lemma g_node_add_edge_nodes:
  "u \<in> fst ` set (g_node G) \<Longrightarrow> v \<in> fst ` set (g_node G) \<Longrightarrow>
   g_node (add_edge u v w G) = g_node G"
  by (simp add: add_edge_def ensure_node_def)

lemma g_node_foldl_frente:
  "set ps \<subseteq> fst ` set (g_node G) \<times> fst ` set (g_node G) \<Longrightarrow>
   g_node (foldl (frente_edge_step fr) G ps) = g_node G"
proof (induction ps arbitrary: G)
  case Nil
  then show ?case by simp
next
  case (Cons p ps)
  obtain x y where p: "p = (x, y)" by (cases p)
  have n: "g_node (frente_edge_step fr G p) = g_node G"
    using Cons.prems by (simp add: p frente_edge_step_eq g_node_add_edge_nodes)
  show ?case
    using Cons.IH[of "frente_edge_step fr G p"] Cons.prems n by simp
qed

lemma node_add_existing:
  assumes "fst x \<in> fst ` set (g_node G)"
  shows "g_adj (node_add sc df G x) = g_adj G \<and>
         map fst (g_node (node_add sc df G x)) = map fst (g_node G) \<and>
         graph.more (node_add sc df G x) = graph.more G"
  using assms
  by (cases x) (simp add: node_add_def add_node_def map_fst_map_entry split: option.splits)

lemma foldl_node_add_existing:
  "fst ` set ps \<subseteq> fst ` set (g_node G) \<Longrightarrow>
   g_adj (foldl (node_add sc df) G ps) = g_adj G \<and>
   map fst (g_node (foldl (node_add sc df) G ps)) = map fst (g_node G) \<and>
   graph.more (foldl (node_add sc df) G ps) = graph.more G"
proof (induction ps arbitrary: G)
  case Nil
  then show ?case by simp
next
  case (Cons p ps)
  have e: "g_adj (node_add sc df G p) = g_adj G"
    "map fst (g_node (node_add sc df G p)) = map fst (g_node G)"
    "graph.more (node_add sc df G p) = graph.more G"
    using node_add_existing[of p G sc df] Cons.prems by simp_all
  have "fst ` set (g_node (node_add sc df G p)) = fst ` set (g_node G)"
    using e(2) by (metis set_map)
  then show ?case
    using Cons.IH[of "node_add sc df G p"] Cons.prems e by simp
qed

text \<open>
  C10: when \<open>FrenteNetwork.build_network\<close> has built the graph of a fresh instance, a
  second call on the same instance succeeds and leaves the graph exactly as it was: the
  same nodes with the same attributes and the same edges with the same weights, in the
  same order.
\<close>

theorem frente_build_twice:
  assumes "set frente_columns \<subseteq> set (columns df)"
    and "build_network_frente df empty_graph = Inr G1"
  shows "build_network_frente df G1 = Inr G1"
proof -
  let ?ps = "id_nome_pairs frente_schema df"
  let ?cs = "combinations (map fst ?ps)"
  let ?fr = "frentes_dict df"
  let ?G0 = "foldl (node_add frente_schema df) empty_graph ?ps"
  let ?H0 = "foldl (node_add frente_schema df) G1 ?ps"
  have G1: "G1 = foldl (frente_edge_step ?fr) ?G0 ?cs"
    using assms(2) build_network_frente_present[OF assms(1), of empty_graph] by simp
  have ok0: "graph_ok ?G0"
    by (simp add: graph_ok_foldl_node_add graph_ok_empty)
  have ok1: "graph_ok G1"
    unfolding G1 using ok0 by (rule graph_ok_foldl_frente)
  have ids0: "fst ` set (g_node ?G0) = fst ` set ?ps"
    using node_ids_foldl_node_add[of ?ps frente_schema df empty_graph]
      ids_id_nome_pairs[of frente_schema df]
    by (simp add: node_ids_def empty_graph_def)
  have cs: "set ?cs \<subseteq> fst ` set (g_node ?G0) \<times> fst ` set (g_node ?G0)"
    using set_combinations[of "map fst ?ps"] ids0 by simp
  have n1: "g_node G1 = g_node ?G0"
    unfolding G1 using cs by (rule g_node_foldl_frente)
  have sub: "fst ` set ?ps \<subseteq> fst ` set (g_node G1)"
    using ids0 n1 by simp
  note ex = foldl_node_add_existing[OF sub, of frente_schema df]
  have m: "map_of (g_node ?H0) = map_of (g_node G1)"
  proof
    fix x
    show "map_of (g_node ?H0) x = map_of (g_node G1) x"
      unfolding map_of_foldl_node_add n1
      by (simp add: empty_graph_def split: option.splits)
  qed
  have "g_node ?H0 = g_node G1"
    using ex ok1 m by (intro alist_eqI) (simp_all add: graph_ok_def)
  then have H0: "?H0 = G1"
    using ex by (intro graph.equality) simp_all
  have fixed: "frente_edge_step ?fr G1 p = G1" if "p \<in> set ?cs" for p
  proof -
    obtain x y where p: "p = (x, y)" by (cases p)
    show ?thesis
    proof (cases "0 < peso ?fr x y")
      case True
      have "edge_weight G1 x y = Some (int (peso ?fr x y))"
        unfolding G1 edge_weight_foldl_frente[OF ok0]
        using that True p by auto
      then show ?thesis
        using True ok1 by (simp add: p frente_edge_step_eq add_edge_same)
    next
      case False
      then show ?thesis by (simp add: p frente_edge_step_eq)
    qed
  qed
  have "foldl (frente_edge_step ?fr) G1 ?cs = G1"
    using fixed by (rule foldl_fixed)
  then show ?thesis
    using build_network_frente_present[OF assms(1), of G1] H0 by simp
qed

theorem frente_build_twice_witness:
  "\<exists>G1. build_network_frente two_fronts_table empty_graph = Inr G1 \<and>
     build_network_frente two_fronts_table G1 = Inr G1"
proof -
  have h: "set frente_columns \<subseteq> set (columns two_fronts_table)"
    by (simp add: two_fronts_table_def)
  obtain G1 where G1: "build_network_frente two_fronts_table empty_graph = Inr G1"
    using build_network_frente_present[OF h, of empty_graph] by blast
  from frente_build_twice[OF h G1] G1 show ?thesis by blast
qed

section \<open>Agreement policy\<close>

lemma tally_sym: "graph_ok G \<Longrightarrow> tally G a b = tally G b a"
  by (simp add: tally_def graph_ok_def)

lemma delta_sym: "delta votos a b = delta votos b a"
  by (auto simp: delta_def)

lemma edge_node:
  assumes "graph_ok G" "edge_weight G u v = Some w"
  shows "u \<in> set (node_ids G) \<and> v \<in> set (node_ids G)"
proof -
  have "edge_weight G v u = Some w" using assms by (simp add: graph_ok_def)
  then have "map_of (g_adj G) u \<noteq> None" "map_of (g_adj G) v \<noteq> None"
    using assms(2) by (auto simp: edge_weight_def split: option.splits)
  then have "u \<in> fst ` set (g_adj G)" "v \<in> fst ` set (g_adj G)"
    by (simp_all add: map_of_eq_None_iff)
  then show ?thesis
    using assms(1) by (simp add: graph_ok_def node_ids_def)
qed

lemma vote_step_Inr:
  assumes "graph_ok G" "map_of votos d1 = Some v1" "map_of votos d2 = Some v2"
  shows "\<exists>G'. vote_step votos (d1, d2) G = Inr G' \<and> graph_ok G' \<and>
     set (node_ids G') = insert d1 (insert d2 (set (node_ids G))) \<and>
     (\<forall>a b. edge_weight G' a b =
        (if (a = d1 \<and> b = d2) \<or> (a = d2 \<and> b = d1)
         then Some (tally G d1 d2 + delta votos d1 d2) else edge_weight G a b))"
proof -
  define G1 where "G1 = (if \<not> has_edge G d1 d2 then add_edge d1 d2 0 G else G)"
  have k: "fst ` set (g_adj G) = fst ` set (g_node G)"
    using assms(1) by (simp add: graph_ok_def)
  have ok1: "graph_ok G1"
    using assms(1) by (simp add: G1_def graph_ok_add_edge)
  have w1: "edge_weight G1 d1 d2 = Some (tally G d1 d2)"
    by (auto simp: G1_def has_edge_iff tally_def edge_weight_add_edge[OF k])
  have o1: "edge_weight G1 a b = edge_weight G a b"
    if "\<not> ((a = d1 \<and> b = d2) \<or> (a = d2 \<and> b = d1))" for a b
    using that by (auto simp: G1_def edge_weight_add_edge[OF k])
  have n1: "set (node_ids G1) = insert d1 (insert d2 (set (node_ids G)))"
  proof (cases "has_edge G d1 d2")
    case True
    then obtain w where "edge_weight G d1 d2 = Some w"
      by (auto simp: has_edge_iff)
    from edge_node[OF assms(1) this] True show ?thesis
      by (auto simp: G1_def)
  next
    case False
    then show ?thesis by (simp add: G1_def node_ids_add_edge[OF assms(1)])
  qed
  obtain G' where G': "weight_add d1 d2 (delta votos d1 d2) G1 = Inr G'" "graph_ok G'"
    "g_node G' = g_node G1"
    "\<And>a b. edge_weight G' a b =
        (if (a = d1 \<and> b = d2) \<or> (a = d2 \<and> b = d1)
         then Some (tally G d1 d2 + delta votos d1 d2) else edge_weight G1 a b)"
    using weight_add_Inr[OF ok1 w1, of "delta votos d1 d2"] by blast
  have s: "vote_step votos (d1, d2) G = weight_add d1 d2 (delta votos d1 d2) G1"
    using assms(2,3) by (simp add: vote_step_def G1_def delta_def Let_def)
  have e: "edge_weight G' a b =
        (if (a = d1 \<and> b = d2) \<or> (a = d2 \<and> b = d1)
         then Some (tally G d1 d2 + delta votos d1 d2) else edge_weight G a b)" for a b
    using G'(4)[of a b] o1[of a b] by simp
  have "set (node_ids G') = insert d1 (insert d2 (set (node_ids G)))"
    using n1 G'(3) by (simp add: node_ids_def)
  then show ?thesis
    using s G'(1,2) e by simp
qed

lemma visits_Cons:
  "visits ((x, y) # ps) a b =
     (if (a = x \<and> b = y) \<or> (a = y \<and> b = x) then Suc (visits ps a b) else visits ps a b)"
  by (simp add: visits_def)

lemma for_each_vote_step:
  assumes "graph_ok G" "set ps \<subseteq> dom (map_of votos) \<times> dom (map_of votos)"
  shows "\<exists>G'. for_each (vote_step votos) ps G = Inr G' \<and> graph_ok G' \<and>
     set (node_ids G') = set (node_ids G) \<union> fst ` set ps \<union> snd ` set ps \<and>
     (\<forall>a b. edge_weight G' a b =
        (if visits ps a b = 0 then edge_weight G a b
         else Some (tally G a b + int (visits ps a b) * delta votos a b)))"
  using assms
proof (induction ps arbitrary: G)
  case Nil
  then show ?case by (simp add: visits_def)
next
  case (Cons p ps)
  obtain x y where p: "p = (x, y)" by (cases p)
  from Cons.prems(2) obtain v1 v2 where v: "map_of votos x = Some v1" "map_of votos y = Some v2"
    by (auto simp: p)
  obtain G1 where G1: "vote_step votos (x, y) G = Inr G1" "graph_ok G1"
    "set (node_ids G1) = insert x (insert y (set (node_ids G)))"
    "\<And>a b. edge_weight G1 a b =
        (if (a = x \<and> b = y) \<or> (a = y \<and> b = x)
         then Some (tally G x y + delta votos x y) else edge_weight G a b)"
    using vote_step_Inr[OF Cons.prems(1) v] by blast
  have sub: "set ps \<subseteq> dom (map_of votos) \<times> dom (map_of votos)"
    using Cons.prems(2) by simp
  obtain G' where G': "for_each (vote_step votos) ps G1 = Inr G'" "graph_ok G'"
    "set (node_ids G') = set (node_ids G1) \<union> fst ` set ps \<union> snd ` set ps"
    "\<And>a b. edge_weight G' a b =
        (if visits ps a b = 0 then edge_weight G1 a b
         else Some (tally G1 a b + int (visits ps a b) * delta votos a b))"
    using Cons.IH[OF G1(2) sub] by blast
  have t1: "tally G1 a b =
      (if (a = x \<and> b = y) \<or> (a = y \<and> b = x) then tally G a b + delta votos a b
       else tally G a b)" for a b
    using G1(4)[of a b] tally_sym[OF Cons.prems(1), of x y] delta_sym[of votos x y]
    by (auto simp: tally_def)
  have e: "edge_weight G' a b =
        (if visits (p # ps) a b = 0 then edge_weight G a b
         else Some (tally G a b + int (visits (p # ps) a b) * delta votos a b))" for a b
  proof -
    consider (fwd) "a = x" "b = y" | (bwd) "a = y" "b = x" "\<not> (a = x \<and> b = y)"
      | (other) "\<not> ((a = x \<and> b = y) \<or> (a = y \<and> b = x))"
      by blast
    then show ?thesis
    proof cases
      case fwd
      have v: "visits (p # ps) x y = Suc (visits ps x y)"
        by (simp add: p visits_Cons)
      have "edge_weight G1 x y = Some (tally G x y + delta votos x y)"
        "tally G1 x y = tally G x y + delta votos x y"
        using G1(4)[of x y] t1[of x y] by simp_all
      then have "edge_weight G' x y =
          Some (tally G x y + int (Suc (visits ps x y)) * delta votos x y)"
        using G'(4)[of x y] by (simp add: algebra_simps)
      then show ?thesis
        unfolding fwd v by simp
    next
      case bwd
      have v: "visits (p # ps) y x = Suc (visits ps y x)"
        by (simp add: p visits_Cons)
      have "edge_weight G1 y x = Some (tally G y x + delta votos y x)"
        "tally G1 y x = tally G y x + delta votos y x"
        using G1(4)[of y x] t1[of y x] tally_sym[OF Cons.prems(1), of x y]
          delta_sym[of votos x y] by simp_all
      then have "edge_weight G' y x =
          Some (tally G y x + int (Suc (visits ps y x)) * delta votos y x)"
        using G'(4)[of y x] by (simp add: algebra_simps)
      then show ?thesis
        unfolding bwd(1,2) v by simp
    next
      case other
      have v: "visits (p # ps) a b = visits ps a b"
        using other by (simp add: p visits_Cons)
      have "edge_weight G1 a b = edge_weight G a b" "tally G1 a b = tally G a b"
        using G1(4)[of a b] t1[of a b] other by simp_all
      then show ?thesis
        unfolding v using G'(4)[of a b] by simp
    qed
  qed
  have "for_each (vote_step votos) (p # ps) G = Inr G'"
    using G1(1) G'(1) by (simp add: p)
  moreover have "set (node_ids G') = set (node_ids G) \<union> fst ` set (p # ps) \<union> snd ` set (p # ps)"
    using G'(3) G1(3) by (auto simp: p)
  ultimately show ?case using G'(2) e by blast
qed

lemma length_filter_eq_distinct:
  "distinct xs \<Longrightarrow> length (filter (\<lambda>y. y = b) xs) = (if b \<in> set xs then 1 else 0)"
  by (induction xs) auto

lemma visits_append: "visits (ps @ qs) a b = visits ps a b + visits qs a b"
  by (simp add: visits_def)

lemma visits_star:
  assumes "distinct xs" "x \<notin> set xs"
  shows "visits (map (Pair x) xs) a b =
     (if (a = x \<and> b \<in> set xs) \<or> (b = x \<and> a \<in> set xs) then 1 else 0)"
proof -
  have "visits (map (Pair x) xs) a b = length (filter (\<lambda>y. (a = x \<and> b = y) \<or> (a = y \<and> b = x)) xs)"
    by (simp add: visits_def filter_map comp_def)
  also have "\<dots> = (if (a = x \<and> b \<in> set xs) \<or> (b = x \<and> a \<in> set xs) then 1 else 0)"
  proof -
    consider (l) "a = x" | (r) "a \<noteq> x" "b = x" | (n) "a \<noteq> x" "b \<noteq> x" by blast
    then show ?thesis
    proof cases
      case l
      have "filter (\<lambda>y. (a = x \<and> b = y) \<or> (a = y \<and> b = x)) xs = filter (\<lambda>y. y = b) xs"
        using l assms(2) by (intro filter_cong) auto
      then show ?thesis
        using l assms by (simp add: length_filter_eq_distinct)
    next
      case r
      have "filter (\<lambda>y. (a = x \<and> b = y) \<or> (a = y \<and> b = x)) xs = filter (\<lambda>y. y = a) xs"
        using r by (intro filter_cong) auto
      then show ?thesis
        using r assms by (simp add: length_filter_eq_distinct)
    next
      case n
      have "filter (\<lambda>y. (a = x \<and> b = y) \<or> (a = y \<and> b = x)) xs = []"
        using n by (simp add: filter_empty_conv)
      then show ?thesis
        using n by simp
    qed
  qed
  finally show ?thesis .
qed

lemma visits_combinations:
  "distinct xs \<Longrightarrow>
   visits (combinations xs) a b = (if a \<noteq> b \<and> a \<in> set xs \<and> b \<in> set xs then 1 else 0)"
proof (induction xs)
  case Nil
  then show ?case by (simp add: visits_def)
next
  case (Cons x xs)
  then show ?case
    by (auto simp: visits_append visits_star)
qed

lemma distinct_foldl_update:
  "distinct (map fst d) \<Longrightarrow> distinct (map fst (foldl (\<lambda>d r. AList.update (kf r) (vf r) d) d rs))"
  by (induction rs arbitrary: d) (simp_all add: distinct_update)

lemma distinct_votos_of: "distinct (map fst (votos_of df k))"
  by (simp add: votos_of_def distinct_foldl_update)

lemma votos_dict_present:
  "set voto_columns \<subseteq> set (columns df) \<Longrightarrow>
   votos_dict (df\<lparr>rows := filter (\<lambda>r. v_id r = k) (rows df)\<rparr>) = Inr (votos_of df k)"
  by (simp add: votos_dict_def votos_of_def voto_columns_def)

lemma groupby_id_present:
  "set voto_columns \<subseteq> set (columns df) \<Longrightarrow>
   groupby_id df =
     Inr (map (\<lambda>k. (k, df\<lparr>rows := filter (\<lambda>r. v_id r = k) (rows df)\<rparr>)) (ballots df))"
  by (simp add: groupby_id_def ballots_def voto_columns_def)

lemma ballot_step_Inr:
  assumes "set voto_columns \<subseteq> set (columns df)" "graph_ok G"
  shows "\<exists>G'. ballot_step (k, df\<lparr>rows := filter (\<lambda>r. v_id r = k) (rows df)\<rparr>) G = Inr G' \<and>
     graph_ok G' \<and>
     set (node_ids G') \<subseteq> set (node_ids G) \<union> fst ` set (votos_of df k) \<and>
     set (node_ids G) \<subseteq> set (node_ids G') \<and>
     (\<forall>a b. edge_weight G' a b =
        (if a \<noteq> b \<and> both_voted df a b k then Some (tally G a b + contribution df a b k)
         else edge_weight G a b))"
proof -
  let ?votos = "votos_of df k"
  let ?ps = "combinations (map fst ?votos)"
  have sub0: "set ?ps \<subseteq> fst ` set ?votos \<times> fst ` set ?votos"
    using set_combinations[of "map fst ?votos"] by simp
  then have sub: "set ?ps \<subseteq> dom (map_of ?votos) \<times> dom (map_of ?votos)"
    by (simp add: dom_map_of_conv_image_fst)
  obtain G' where G': "for_each (vote_step ?votos) ?ps G = Inr G'" "graph_ok G'"
    "set (node_ids G') = set (node_ids G) \<union> fst ` set ?ps \<union> snd ` set ?ps"
    "\<And>a b. edge_weight G' a b =
        (if visits ?ps a b = 0 then edge_weight G a b
         else Some (tally G a b + int (visits ?ps a b) * delta ?votos a b))"
    using for_each_vote_step[OF assms(2) sub] by blast
  have v: "visits ?ps a b = (if a \<noteq> b \<and> both_voted df a b k then 1 else 0)" for a b
    by (simp add: visits_combinations[OF distinct_votos_of] both_voted_def
        map_of_eq_None_iff)
  have e: "edge_weight G' a b =
        (if a \<noteq> b \<and> both_voted df a b k then Some (tally G a b + contribution df a b k)
         else edge_weight G a b)" for a b
    unfolding G'(4) v by (simp add: contribution_def)
  have n: "set (node_ids G') \<subseteq> set (node_ids G) \<union> fst ` set ?votos"
    unfolding G'(3) using sub0 by auto
  have "ballot_step (k, df\<lparr>rows := filter (\<lambda>r. v_id r = k) (rows df)\<rparr>) G = Inr G'"
    using G'(1) by (simp add: ballot_step_def votos_dict_present[OF assms(1)])
  then show ?thesis
    using G'(2,3) e n by auto
qed

lemma for_each_ballot_step:
  assumes "set voto_columns \<subseteq> set (columns df)" "graph_ok G"
  shows "\<exists>G'. for_each ballot_step
            (map (\<lambda>k. (k, df\<lparr>rows := filter (\<lambda>r. v_id r = k) (rows df)\<rparr>)) ks) G = Inr G' \<and>
     graph_ok G' \<and>
     set (node_ids G') \<subseteq> set (node_ids G) \<union> (\<Union>k \<in> set ks. fst ` set (votos_of df k)) \<and>
     set (node_ids G) \<subseteq> set (node_ids G') \<and>
     (\<forall>a b. edge_weight G' a b =
        (if a \<noteq> b \<and> (\<exists>k \<in> set ks. both_voted df a b k)
         then Some (tally G a b + sum_list (map (contribution df a b) ks))
         else edge_weight G a b))"
  using assms(2)
proof (induction ks arbitrary: G)
  case Nil
  then show ?case by simp
next
  case (Cons k ks)
  obtain G1 where G1: "ballot_step (k, df\<lparr>rows := filter (\<lambda>r. v_id r = k) (rows df)\<rparr>) G = Inr G1"
    "graph_ok G1"
    "set (node_ids G1) \<subseteq> set (node_ids G) \<union> fst ` set (votos_of df k)"
    "set (node_ids G) \<subseteq> set (node_ids G1)"
    "\<And>a b. edge_weight G1 a b =
        (if a \<noteq> b \<and> both_voted df a b k then Some (tally G a b + contribution df a b k)
         else edge_weight G a b)"
    using ballot_step_Inr[OF assms(1) Cons.prems, of k] by blast
  obtain G' where G': "for_each ballot_step
            (map (\<lambda>k. (k, df\<lparr>rows := filter (\<lambda>r. v_id r = k) (rows df)\<rparr>)) ks) G1 = Inr G'"
    "graph_ok G'"
    "set (node_ids G') \<subseteq> set (node_ids G1) \<union> (\<Union>k \<in> set ks. fst ` set (votos_of df k))"
    "set (node_ids G1) \<subseteq> set (node_ids G')"
    "\<And>a b. edge_weight G' a b =
        (if a \<noteq> b \<and> (\<exists>k \<in> set ks. both_voted df a b k)
         then Some (tally G1 a b + sum_list (map (contribution df a b) ks))
         else edge_weight G1 a b)"
    using Cons.IH[OF G1(2)] by blast
  have t1: "tally G1 a b = tally G a b + contribution df a b k" if "a \<noteq> b" for a b
    using G1(5)[of a b] that by (simp add: tally_def contribution_def)
  have e: "edge_weight G' a b =
        (if a \<noteq> b \<and> (\<exists>k \<in> set (k # ks). both_voted df a b k)
         then Some (tally G a b + sum_list (map (contribution df a b) (k # ks)))
         else edge_weight G a b)" for a b
  proof (cases "a = b")
    case True
    then show ?thesis using G'(5)[of a b] G1(5)[of a b] by simp
  next
    case False
    show ?thesis
    proof (cases "\<exists>k \<in> set ks. both_voted df a b k")
      case True
      then show ?thesis
        using False G'(5)[of a b] t1[OF False] by simp
    next
      case nk: False
      have "sum_list (map (contribution df a b) ks) = 0"
        using nk by (induction ks) (simp_all add: contribution_def)
      then show ?thesis
        using False nk G'(5)[of a b] G1(5)[of a b] by simp
    qed
  qed
  have "for_each ballot_step
          (map (\<lambda>k. (k, df\<lparr>rows := filter (\<lambda>r. v_id r = k) (rows df)\<rparr>)) (k # ks)) G = Inr G'"
    using G1(1) G'(1) by simp
  moreover have "set (node_ids G') \<subseteq>
      set (node_ids G) \<union> (\<Union>k \<in> set (k # ks). fst ` set (votos_of df k))"
    using G'(3) G1(3) by auto
  moreover have "set (node_ids G) \<subseteq> set (node_ids G')"
    using G'(4) G1(4) by auto
  ultimately show ?case using G'(2) e by blast
qed

lemma map_of_foldl_update:
  "map_of (foldl (\<lambda>d r. AList.update (kf r) (vf r) d) d0 rs) a =
     (case find (\<lambda>r. kf r = a) (rev rs) of None \<Rightarrow> map_of d0 a | Some r \<Rightarrow> Some (vf r))"
  by (induction rs rule: rev_induct) (simp_all add: update_conv)

lemma find_filter: "find P (filter Q xs) = find (\<lambda>r. Q r \<and> P r) xs"
  by (induction xs) simp_all

lemma map_of_votos_of: "map_of (votos_of df k) a = last_vote df k a"
  by (simp add: votos_of_def last_vote_def map_of_foldl_update rev_filter find_filter
      split: option.splits)

lemma last_vote_None: "last_vote df k a = None \<longleftrightarrow> \<not> voted df k a"
  by (auto simp: last_vote_def voted_def find_None_iff)

lemma both_voted_iff: "both_voted df a b k \<longleftrightarrow> voted df k a \<and> voted df k b"
  by (simp add: both_voted_def map_of_votos_of last_vote_None)

lemma keys_votos_of: "fst ` set (votos_of df k) \<subseteq> v_id_deputado ` set (rows df)"
proof
  fix a assume "a \<in> fst ` set (votos_of df k)"
  then have "map_of (votos_of df k) a \<noteq> None"
    by (simp add: map_of_eq_None_iff)
  then have "voted df k a"
    by (simp add: map_of_votos_of last_vote_None)
  then show "a \<in> v_id_deputado ` set (rows df)"
    by (auto simp: voted_def)
qed

lemma contribution_eq:
  "contribution df a b k =
     (if voted df k a \<and> voted df k b
      then (if last_vote df k a = last_vote df k b then 1 else - 1) else 0)"
  by (simp add: contribution_def both_voted_iff delta_def map_of_votos_of)

lemma sum_contribution:
  "sum_list (map (contribution df a b) ks) =
     int (length (filter (\<lambda>k. last_vote df k a = last_vote df k b)
                    (filter (\<lambda>k. voted df k a \<and> voted df k b) ks)))
     - int (length (filter (\<lambda>k. last_vote df k a \<noteq> last_vote df k b)
                    (filter (\<lambda>k. voted df k a \<and> voted df k b) ks)))"
  by (induction ks) (simp_all add: contribution_eq)

lemma voto_ids: "get_id voto_schema = v_id_deputado"
  by (simp add: voto_schema_def)

lemma build_network_voting_present:
  assumes "set voto_columns \<subseteq> set (columns df)"
  shows "\<exists>G. build_network_voting df empty_graph = Inr G \<and> graph_ok G \<and>
     set (node_ids G) = v_id_deputado ` set (rows df) \<and>
     (\<forall>a b. edge_weight G a b =
        (if a \<noteq> b \<and> common_ballots df a b \<noteq> []
         then Some (sum_list (map (contribution df a b) (ballots df))) else None))"
proof -
  let ?ps = "id_nome_pairs voto_schema df"
  let ?G1 = "foldl (node_add voto_schema df) empty_graph ?ps"
  have n: "add_all_nodes voto_schema df empty_graph = Inr ?G1"
    by (rule add_all_nodes_present[OF schema_ok_voto[OF assms]])
  have ok1: "graph_ok ?G1"
    by (simp add: graph_ok_foldl_node_add graph_ok_empty)
  have e1: "edge_weight ?G1 a b = None" for a b
    by (simp add: edge_weight_foldl_node_add graph_ok_empty)
       (simp add: edge_weight_def empty_graph_def)
  have ids: "set (node_ids ?G1) = v_id_deputado ` set (rows df)"
    using node_ids_foldl_node_add[of ?ps voto_schema df empty_graph]
      ids_id_nome_pairs[of voto_schema df]
    by (simp add: voto_ids node_ids_def empty_graph_def)
  obtain G where G: "for_each ballot_step
            (map (\<lambda>k. (k, df\<lparr>rows := filter (\<lambda>r. v_id r = k) (rows df)\<rparr>)) (ballots df)) ?G1
            = Inr G"
    "graph_ok G"
    "set (node_ids G) \<subseteq> set (node_ids ?G1) \<union> (\<Union>k \<in> set (ballots df). fst ` set (votos_of df k))"
    "set (node_ids ?G1) \<subseteq> set (node_ids G)"
    "\<And>a b. edge_weight G a b =
        (if a \<noteq> b \<and> (\<exists>k \<in> set (ballots df). both_voted df a b k)
         then Some (tally ?G1 a b + sum_list (map (contribution df a b) (ballots df)))
         else edge_weight ?G1 a b)"
    using for_each_ballot_step[OF assms ok1, of "ballots df"] by blast
  have b: "build_network_voting df empty_graph = Inr G"
    using n G(1) by (simp add: build_network_voting_def groupby_id_present[OF assms])
  have nodes: "set (node_ids G) = v_id_deputado ` set (rows df)"
    using G(3,4) ids keys_votos_of[of df] by blast
  have c: "(\<exists>k \<in> set (ballots df). both_voted df a b k) \<longleftrightarrow> common_ballots df a b \<noteq> []" for a b
    by (auto simp: common_ballots_def both_voted_iff filter_empty_conv)
  have e: "edge_weight G a b =
        (if a \<noteq> b \<and> common_ballots df a b \<noteq> []
         then Some (sum_list (map (contribution df a b) (ballots df))) else None)" for a b
    unfolding G(5) c by (simp add: tally_def e1)
  show ?thesis using b G(2) nodes e by blast
qed

text \<open>
  C9: whatever rows the table has for a (legislator, ballot) pair, one or many, the voting
  builder on a fresh instance raises nothing, and the weight of the edge between two
  distinct legislators counts, over the ballots in which both have a row, the ballots where
  the vote choices of their last rows are equal minus the ballots where these differ. The
  weight is a function of the last rows alone: an earlier row of the same pair has no part
  in it.
\<close>

theorem voting_last_row_wins:
  assumes "set voto_columns \<subseteq> set (columns df)" and "a \<noteq> b"
  shows "\<exists>G. build_network_voting df empty_graph = Inr G \<and>
     (has_edge G a b \<longleftrightarrow> common_ballots df a b \<noteq> []) \<and>
     edge_weight G a b =
       (if common_ballots df a b = [] then None
        else Some (int (length (filter (\<lambda>k. last_vote df k a = last_vote df k b)
                                  (common_ballots df a b)))
                   - int (length (filter (\<lambda>k. last_vote df k a \<noteq> last_vote df k b)
                                    (common_ballots df a b)))))"
proof -
  obtain G where G: "build_network_voting df empty_graph = Inr G"
    "\<And>a b. edge_weight G a b =
        (if a \<noteq> b \<and> common_ballots df a b \<noteq> []
         then Some (sum_list (map (contribution df a b) (ballots df))) else None)"
    using build_network_voting_present[OF assms(1)] by blast
  have "edge_weight G a b =
       (if common_ballots df a b = [] then None
        else Some (int (length (filter (\<lambda>k. last_vote df k a = last_vote df k b)
                                  (common_ballots df a b)))
                   - int (length (filter (\<lambda>k. last_vote df k a \<noteq> last_vote df k b)
                                    (common_ballots df a b)))))"
    unfolding G(2) using assms(2) by (simp add: sum_contribution common_ballots_def)
  then show ?thesis
    using G(1) by (auto simp: has_edge_iff)
qed

theorem voting_last_row_wins_witness:
  "\<exists>G. build_network_voting revote_table empty_graph = Inr G \<and> has_edge G 1 2 \<and>
     edge_weight G 1 2 = Some (- 1)"
proof -
  have h: "set voto_columns \<subseteq> set (columns revote_table)" "(1::int) \<noteq> 2"
    by (simp_all add: revote_table_def)
  have c: "common_ballots revote_table 1 2 = [1]"
    by (simp add: common_ballots_def ballots_def voted_def revote_table_def voto_def)
  have v: "last_vote revote_table 1 1 = Some ''Nao''" "last_vote revote_table 1 2 = Some ''Sim''"
    by (simp_all add: last_vote_def revote_table_def voto_def)
  from voting_last_row_wins[OF h] show ?thesis
    by (auto simp: c v)
qed

lemma find_append:
  "find P (xs @ ys) = (case find P xs of None \<Rightarrow> find P ys | Some x \<Rightarrow> Some x)"
  by (induction xs) simp_all

lemma find_rev_unique:
  assumes "distinct (map f xs)" "\<And>r. P r \<Longrightarrow> f r = c"
  shows "find P (rev xs) = find P xs"
  using assms(1)
proof (induction xs)
  case Nil
  then show ?case by simp
next
  case (Cons x xs)
  show ?case
  proof (cases "P x")
    case True
    then have "f x = c" by (rule assms(2))
    have "\<not> P r" if r: "r \<in> set xs" for r
    proof
      assume "P r"
      then have "f r = f x" using \<open>f x = c\<close> assms(2)[of r] by simp
      then have "f x \<in> f ` set xs" using r by (metis imageI)
      then show False using Cons.prems by simp
    qed
    then have "find P (rev xs) = None"
      by (simp add: find_None_iff)
    then show ?thesis
      using True by (simp add: find_append)
  next
    case False
    then show ?thesis
      using Cons by (simp add: find_append split: option.splits)
  qed
qed

lemma last_vote_unique:
  assumes "distinct (map (\<lambda>r. (v_id_deputado r, v_id r)) (rows df))"
  shows "last_vote df k a = vote df k a"
  unfolding last_vote_def vote_def
  by (subst find_rev_unique[OF assms, of _ "(a, k)"]) simp_all

text \<open>
  C2: on a table with the columns of the voting policy and at most one row per
  (legislator, ballot) pair, \<open>build_network\<close> on a fresh instance succeeds, and between two
  distinct legislators there is an edge exactly if some ballot has a row of each; its
  weight is the number of such ballots where the two vote choices are equal minus the
  number where they differ. An edge whose tally is zero is there all the same.
\<close>

theorem voting_edge_correct:
  assumes "set voto_columns \<subseteq> set (columns df)"
    and "distinct (map (\<lambda>r. (v_id_deputado r, v_id r)) (rows df))"
    and "a \<noteq> b"
  shows "\<exists>G. build_network_voting df empty_graph = Inr G \<and>
     (has_edge G a b \<longleftrightarrow> common_ballots df a b \<noteq> []) \<and>
     edge_weight G a b =
       (if common_ballots df a b = [] then None
        else Some (int (length (filter (\<lambda>k. vote df k a = vote df k b)
                                  (common_ballots df a b)))
                   - int (length (filter (\<lambda>k. vote df k a \<noteq> vote df k b)
                                    (common_ballots df a b)))))"
proof -
  obtain G where G: "build_network_voting df empty_graph = Inr G"
    "\<And>a b. edge_weight G a b =
        (if a \<noteq> b \<and> common_ballots df a b \<noteq> []
         then Some (sum_list (map (contribution df a b) (ballots df))) else None)"
    using build_network_voting_present[OF assms(1)] by blast
  have "edge_weight G a b =
       (if common_ballots df a b = [] then None
        else Some (int (length (filter (\<lambda>k. vote df k a = vote df k b)
                                  (common_ballots df a b)))
                   - int (length (filter (\<lambda>k. vote df k a \<noteq> vote df k b)
                                    (common_ballots df a b)))))"
    unfolding G(2) using assms(3)
    by (simp add: sum_contribution common_ballots_def last_vote_unique[OF assms(2)])
  then show ?thesis
    using G(1) by (auto simp: has_edge_iff)
qed

theorem voting_edge_correct_witness:
  "(\<exists>G. build_network_voting three_ballots_table empty_graph = Inr G \<and> has_edge G 1 2 \<and>
      edge_weight G 1 2 = Some 1) \<and>
   (\<exists>G. build_network_voting three_ballots_table empty_graph = Inr G \<and> has_edge G 1 3 \<and>
      edge_weight G 1 3 = Some 0)"
proof -
  have h: "set voto_columns \<subseteq> set (columns three_ballots_table)"
    "distinct (map (\<lambda>r. (v_id_deputado r, v_id r)) (rows three_ballots_table))"
    by (simp_all add: three_ballots_table_def voto_def)
  have c: "common_ballots three_ballots_table 1 2 = [1, 2, 3]"
    "common_ballots three_ballots_table 1 3 = [1, 3]"
    by (simp_all add: common_ballots_def ballots_def voted_def three_ballots_table_def voto_def)
  have v: "vote three_ballots_table 1 1 = Some ''Sim''" "vote three_ballots_table 1 2 = Some ''Sim''"
    "vote three_ballots_table 1 3 = Some ''Sim''"
    "vote three_ballots_table 2 1 = Some ''Nao''" "vote three_ballots_table 2 2 = Some ''Nao''"
    "vote three_ballots_table 3 1 = Some ''Sim''" "vote three_ballots_table 3 2 = Some ''Nao''"
    "vote three_ballots_table 3 3 = Some ''Nao''"
    by (simp_all add: vote_def three_ballots_table_def voto_def)
  have "\<exists>G. build_network_voting three_ballots_table empty_graph = Inr G \<and> has_edge G 1 2 \<and>
      edge_weight G 1 2 = Some 1"
    using voting_edge_correct[OF h, of 1 2] by (auto simp: c v)
  moreover have "\<exists>G. build_network_voting three_ballots_table empty_graph = Inr G \<and>
      has_edge G 1 3 \<and> edge_weight G 1 3 = Some 0"
    using voting_edge_correct[OF h, of 1 3] by (auto simp: c v)
  ultimately show ?thesis by blast
qed

text \<open>
  C3: on a table with the columns of its policy, \<open>build_network\<close> on a fresh instance
  succeeds and the nodes of the graph are exactly the legislator ids that occur in the
  table, each once.
\<close>

theorem node_completeness:
  assumes "set frente_columns \<subseteq> set (columns df)" and "set voto_columns \<subseteq> set (columns dv)"
  shows "(\<exists>G. build_network_frente df empty_graph = Inr G \<and>
            set (node_ids G) = id_deputado ` set (rows df) \<and> distinct (node_ids G)) \<and>
         (\<exists>G. build_network_voting dv empty_graph = Inr G \<and>
            set (node_ids G) = v_id_deputado ` set (rows dv) \<and> distinct (node_ids G))"
proof -
  let ?ps = "id_nome_pairs frente_schema df"
  let ?G1 = "foldl (node_add frente_schema df) empty_graph ?ps"
  let ?G = "foldl (frente_edge_step (frentes_dict df)) ?G1 (combinations (map fst ?ps))"
  have ok1: "graph_ok ?G1"
    by (simp add: graph_ok_foldl_node_add graph_ok_empty)
  have ids: "set (node_ids ?G1) = fst ` set ?ps"
    using node_ids_foldl_node_add[of ?ps frente_schema df empty_graph]
      ids_id_nome_pairs[of frente_schema df]
    by (simp add: node_ids_def empty_graph_def)
  have cs: "set (combinations (map fst ?ps)) \<subseteq> set (node_ids ?G1) \<times> set (node_ids ?G1)"
    using set_combinations[of "map fst ?ps"] ids by simp
  have "set (node_ids ?G) = id_deputado ` set (rows df)"
    using node_ids_foldl_frente[OF ok1 cs] ids ids_id_nome_pairs[of frente_schema df]
    by (simp add: frente_ids)
  moreover have "distinct (node_ids ?G)"
    using graph_ok_foldl_frente[OF ok1, of "frentes_dict df" "combinations (map fst ?ps)"]
    by (simp add: graph_ok_def node_ids_def)
  ultimately have f: "\<exists>G. build_network_frente df empty_graph = Inr G \<and>
            set (node_ids G) = id_deputado ` set (rows df) \<and> distinct (node_ids G)"
    using build_network_frente_present[OF assms(1), of empty_graph] by simp
  have v: "\<exists>G. build_network_voting dv empty_graph = Inr G \<and>
            set (node_ids G) = v_id_deputado ` set (rows dv) \<and> distinct (node_ids G)"
    using build_network_voting_present[OF assms(2)]
    by (auto simp: graph_ok_def node_ids_def)
  show ?thesis using f v by blast
qed

theorem node_completeness_witness:
  "(\<exists>G. build_network_frente two_fronts_table empty_graph = Inr G \<and>
      set (node_ids G) = {1, 2} \<and> distinct (node_ids G)) \<and>
   (\<exists>G. build_network_voting three_ballots_table empty_graph = Inr G \<and>
      set (node_ids G) = {1, 2, 3} \<and> distinct (node_ids G))"
proof -
  have h: "set frente_columns \<subseteq> set (columns two_fronts_table)"
    "set voto_columns \<subseteq> set (columns three_ballots_table)"
    by (simp_all add: two_fronts_table_def three_ballots_table_def)
  have i: "id_deputado ` set (rows two_fronts_table) = {1, 2}"
    "v_id_deputado ` set (rows three_ballots_table) = {1, 2, 3}"
    by (auto simp: two_fronts_table_def frente_def three_ballots_table_def voto_def)
  from node_completeness[OF h] show ?thesis
    unfolding i .
qed

section \<open>Missing columns\<close>

lemma for_each_first_fails: "f x s = Inl e \<Longrightarrow> for_each f (x # xs) s = Inl e"
  by simp

lemma id_nome_pairs_nonempty: "rows df \<noteq> [] \<Longrightarrow> id_nome_pairs sc df \<noteq> []"
  using ids_id_nome_pairs[of sc df] by (cases "rows df") auto

lemma add_all_nodes_no_rows:
  "rows df = [] \<Longrightarrow> set [col_id sc, col_nome sc] \<subseteq> set (columns df) \<Longrightarrow>
   add_all_nodes sc df G = Inr G"
  by (simp add: add_all_nodes_def distinct_pairs_def missing_def drop_duplicates_def)

lemma add_all_nodes_missing:
  assumes "\<not> set [col_id sc, col_nome sc, col_partido sc, col_uf sc] \<subseteq> set (columns df)"
    and "rows df \<noteq> [] \<or> \<not> set [col_id sc, col_nome sc] \<subseteq> set (columns df)"
  shows "\<exists>cs. add_all_nodes sc df G = Inl (KeyError cs) \<and> cs \<noteq> [] \<and>
     set cs \<subseteq> set [col_id sc, col_nome sc, col_partido sc, col_uf sc] - set (columns df)"
proof (cases "set [col_id sc, col_nome sc] \<subseteq> set (columns df)")
  case False
  let ?cs = "missing df [col_id sc, col_nome sc]"
  have "?cs \<noteq> []" using False by (auto simp: missing_def)
  moreover have "add_all_nodes sc df G = Inl (KeyError ?cs)"
    using \<open>?cs \<noteq> []\<close> by (simp add: add_all_nodes_def distinct_pairs_def)
  moreover have "set ?cs \<subseteq> set [col_id sc, col_nome sc, col_partido sc, col_uf sc] - set (columns df)"
    by (auto simp: missing_def)
  ultimately show ?thesis by blast
next
  case True
  then have idc: "col_id sc \<in> set (columns df)" by simp
  from True assms(2) have "rows df \<noteq> []" by simp
  then obtain p ps where ps: "id_nome_pairs sc df = p # ps"
    using id_nome_pairs_nonempty[of df sc] by (cases "id_nome_pairs sc df") auto
  obtain d n where p: "p = (d, n)" by (cases p)
  have "fst p \<in> fst ` set (id_nome_pairs sc df)"
    by (simp add: ps)
  then have "d \<in> get_id sc ` set (rows df)"
    unfolding ids_id_nome_pairs by (simp add: p)
  then obtain r where r: "first_row sc df d = Some r"
    using first_row_Some[of d sc df] by auto
  have dp: "distinct_pairs sc df = Inr (p # ps)"
    using True ps by (simp add: distinct_pairs_def missing_def id_nome_pairs_def)
  show ?thesis
  proof (cases "col_partido sc \<in> set (columns df)")
    case False
    then have "node_step sc df p G = Inl (KeyError [col_partido sc])"
      using idc by (simp add: p node_step_def loc_first_def)
    then have "add_all_nodes sc df G = Inl (KeyError [col_partido sc])"
      by (simp add: add_all_nodes_def dp)
    then show ?thesis using False by simp
  next
    case pc: True
    with True assms(1) have uc: "col_uf sc \<notin> set (columns df)" by simp
    have "loc_first sc df d (col_partido sc) (get_partido sc) = Inr (get_partido sc r)"
      using idc pc r by (simp add: loc_first_present)
    moreover have "loc_first sc df d (col_uf sc) (get_uf sc) = Inl (KeyError [col_uf sc])"
      using idc uc by (simp add: loc_first_def)
    ultimately have "node_step sc df p G = Inl (KeyError [col_uf sc])"
      by (simp add: p node_step_def)
    then have "add_all_nodes sc df G = Inl (KeyError [col_uf sc])"
      by (simp add: add_all_nodes_def dp)
    then show ?thesis using uc by simp
  qed
qed

lemma add_all_nodes_cases:
  "(\<exists>cs. add_all_nodes sc df G = Inl (KeyError cs) \<and> cs \<noteq> [] \<and>
      set cs \<subseteq> set [col_id sc, col_nome sc, col_partido sc, col_uf sc] - set (columns df)) \<or>
   ((\<exists>G1. add_all_nodes sc df G = Inr G1) \<and>
      set [col_id sc, col_nome sc] \<subseteq> set (columns df) \<and>
      (rows df = [] \<or> schema_ok sc df))"
proof (cases "schema_ok sc df")
  case True
  then show ?thesis
    using add_all_nodes_present[OF True, of G] by (simp add: schema_ok_def)
next
  case False
  then have m: "\<not> set [col_id sc, col_nome sc, col_partido sc, col_uf sc] \<subseteq> set (columns df)"
    by (simp add: schema_ok_def)
  show ?thesis
  proof (cases "rows df \<noteq> [] \<or> \<not> set [col_id sc, col_nome sc] \<subseteq> set (columns df)")
    case True
    then show ?thesis using add_all_nodes_missing[OF m True, of G] by blast
  next
    case False
    then show ?thesis using add_all_nodes_no_rows[of df sc G] by auto
  qed
qed

lemma frente_missing:
  assumes "\<not> set frente_columns \<subseteq> set (columns df)"
    and "rows df \<noteq> [] \<or>
         \<not> set [''id_deputado'', ''nome_deputado'', ''titulo''] \<subseteq> set (columns df)"
  shows "\<exists>cs. build_network_frente df G = Inl (KeyError cs) \<and> cs \<noteq> [] \<and>
     set cs \<subseteq> set frente_columns - set (columns df)"
proof -
  have sc: "set [col_id frente_schema, col_nome frente_schema, col_partido frente_schema,
                col_uf frente_schema] \<subseteq> set frente_columns"
    "col_id frente_schema = ''id_deputado''" "col_nome frente_schema = ''nome_deputado''"
    by (simp_all add: frente_schema_def frente_columns_def)
  from add_all_nodes_cases[of frente_schema df G] show ?thesis
  proof
    assume "\<exists>cs. add_all_nodes frente_schema df G = Inl (KeyError cs) \<and> cs \<noteq> [] \<and>
      set cs \<subseteq> set [col_id frente_schema, col_nome frente_schema, col_partido frente_schema,
                col_uf frente_schema] - set (columns df)"
    then obtain cs where cs: "add_all_nodes frente_schema df G = Inl (KeyError cs)" "cs \<noteq> []"
      "set cs \<subseteq> set [col_id frente_schema, col_nome frente_schema, col_partido frente_schema,
                col_uf frente_schema] - set (columns df)"
      by blast
    have "build_network_frente df G = Inl (KeyError cs)"
      by (simp add: build_network_frente_def cs(1))
    moreover have "set cs \<subseteq> set frente_columns - set (columns df)"
      using cs(3) sc(1) by blast
    ultimately show ?thesis using cs(2) by blast
  next
    assume a: "(\<exists>G1. add_all_nodes frente_schema df G = Inr G1) \<and>
      set [col_id frente_schema, col_nome frente_schema] \<subseteq> set (columns df) \<and>
      (rows df = [] \<or> schema_ok frente_schema df)"
    then obtain G1 where G1: "add_all_nodes frente_schema df G = Inr G1" by blast
    from a have k: "''id_deputado'' \<in> set (columns df)" "''nome_deputado'' \<in> set (columns df)"
      by (simp_all add: sc)
    have t: "''titulo'' \<notin> set (columns df)"
    proof (cases "rows df = []")
      case True
      then show ?thesis using assms(2) k by simp
    next
      case False
      with a have "schema_ok frente_schema df" by simp
      then show ?thesis
        using assms(1) by (auto simp: schema_ok_def frente_schema_def frente_columns_def)
    qed
    have dp: "\<exists>ps. distinct_pairs frente_schema df = Inr ps"
      using k by (simp add: distinct_pairs_def missing_def sc)
    have "dep_frentes df = Inl (KeyError [''titulo''])"
      using k t by (simp add: dep_frentes_def)
    then have "build_network_frente df G = Inl (KeyError [''titulo''])"
      using G1 dp by (auto simp: build_network_frente_def)
    then show ?thesis
      using t by (simp add: frente_columns_def)
  qed
qed

lemma voting_missing:
  assumes "\<not> set voto_columns \<subseteq> set (columns df)"
    and "rows df \<noteq> [] \<or> \<not> set [''id_deputado'', ''nome'', ''id''] \<subseteq> set (columns df)"
  shows "\<exists>cs. build_network_voting df G = Inl (KeyError cs) \<and> cs \<noteq> [] \<and>
     set cs \<subseteq> set voto_columns - set (columns df)"
proof -
  let ?sc = "voto_schema :: 'a voto_row schema"
  have sc: "set [col_id ?sc, col_nome ?sc, col_partido ?sc, col_uf ?sc] \<subseteq> set voto_columns"
    "col_id ?sc = ''id_deputado''" "col_nome ?sc = ''nome''"
    by (simp_all add: voto_schema_def voto_columns_def)
  from add_all_nodes_cases[of ?sc df G] show ?thesis
  proof
    assume "\<exists>cs. add_all_nodes ?sc df G = Inl (KeyError cs) \<and> cs \<noteq> [] \<and>
      set cs \<subseteq> set [col_id ?sc, col_nome ?sc, col_partido ?sc, col_uf ?sc] - set (columns df)"
    then obtain cs where cs: "add_all_nodes ?sc df G = Inl (KeyError cs)" "cs \<noteq> []"
      "set cs \<subseteq> set [col_id ?sc, col_nome ?sc, col_partido ?sc, col_uf ?sc] - set (columns df)"
      by blast
    have "build_network_voting df G = Inl (KeyError cs)"
      by (simp add: build_network_voting_def cs(1))
    moreover have "set cs \<subseteq> set voto_columns - set (columns df)"
      using cs(3) sc(1) by blast
    ultimately show ?thesis using cs(2) by blast
  next
    assume a: "(\<exists>G1. add_all_nodes ?sc df G = Inr G1) \<and>
      set [col_id ?sc, col_nome ?sc] \<subseteq> set (columns df) \<and>
      (rows df = [] \<or> schema_ok ?sc df)"
    then obtain G1 where G1: "add_all_nodes ?sc df G = Inr G1" by blast
    from a have k: "''id_deputado'' \<in> set (columns df)" "''nome'' \<in> set (columns df)"
      by (simp_all add: sc)
    show ?thesis
    proof (cases "''id'' \<in> set (columns df)")
      case False
      then have "groupby_id df = Inl (KeyError [''id''])"
        by (simp add: groupby_id_def)
      then have "build_network_voting df G = Inl (KeyError [''id''])"
        using G1 by (simp add: build_network_voting_def)
      then show ?thesis using False by (simp add: voto_columns_def)
    next
      case True
      with assms(2) k have rows: "rows df \<noteq> []" by simp
      with a have "schema_ok ?sc df" by simp
      then have t: "''tipoVoto'' \<notin> set (columns df)"
        using assms(1) True by (auto simp: schema_ok_def voto_schema_def voto_columns_def)
      have "set (sort (remdups (map v_id (rows df)))) \<noteq> {}"
        using rows by simp
      then have "sort (remdups (map v_id (rows df))) \<noteq> []"
        by (metis set_empty2)
      then obtain b bs where bs: "sort (remdups (map v_id (rows df))) = b # bs"
        by (cases "sort (remdups (map v_id (rows df)))") auto
      let ?g = "(b, df\<lparr>rows := filter (\<lambda>r. v_id r = b) (rows df)\<rparr>)"
      have g: "groupby_id df =
          Inr (?g # map (\<lambda>k. (k, df\<lparr>rows := filter (\<lambda>r. v_id r = k) (rows df)\<rparr>)) bs)"
        using True by (simp add: groupby_id_def bs)
      have "ballot_step ?g G1 = Inl (KeyError [''tipoVoto''])"
        using k t by (simp add: ballot_step_def votos_dict_def)
      then have "build_network_voting df G = Inl (KeyError [''tipoVoto''])"
        using G1 g by (simp add: build_network_voting_def)
      then show ?thesis using t by (simp add: voto_columns_def)
    qed
  qed
qed

text \<open>
  C6 (as stated): a table that lacks a column the policy requires makes \<open>build_network\<close>
  fail. It need not: a table with no row that lacks the party and state columns (and, for
  the voting policy, the vote column) goes through both builders without any error, since
  these columns are only read inside loops over the rows.
\<close>

theorem missing_column_counterexample:
  "\<not> set frente_columns \<subseteq> set (columns bare_frente_table) \<and>
   build_network_frente bare_frente_table empty_graph = Inr empty_graph \<and>
   \<not> set voto_columns \<subseteq> set (columns bare_voto_table) \<and>
   build_network_voting bare_voto_table empty_graph = Inr empty_graph"
  by (simp add: bare_frente_table_def bare_voto_table_def frente_columns_def voto_columns_def
      build_network_frente_def build_network_voting_def add_all_nodes_def distinct_pairs_def
      missing_def frente_schema_def voto_schema_def drop_duplicates_def dep_frentes_def
      groupby_id_def)

text \<open>
  C6 (amended): if the table lacks a column its policy reads, and it has at least one row
  or lacks one of the columns read outside the row loops (\<open>id_deputado\<close>, the name column,
  and \<open>titulo\<close> for the membership policy or \<open>id\<close> for the voting policy), then
  \<open>build_network\<close> fails with the \<open>KeyError\<close> of pandas, which names one or more columns,
  all of them required and missing. No other exception type is involved.
\<close>

theorem missing_column_fails:
  assumes "\<not> set frente_columns \<subseteq> set (columns df)"
    and "rows df \<noteq> [] \<or>
         \<not> set [''id_deputado'', ''nome_deputado'', ''titulo''] \<subseteq> set (columns df)"
    and "\<not> set voto_columns \<subseteq> set (columns dv)"
    and "rows dv \<noteq> [] \<or> \<not> set [''id_deputado'', ''nome'', ''id''] \<subseteq> set (columns dv)"
  shows "(\<exists>cs. build_network_frente df G = Inl (KeyError cs) \<and> cs \<noteq> [] \<and>
            set cs \<subseteq> set frente_columns - set (columns df)) \<and>
         (\<exists>cs. build_network_voting dv G = Inl (KeyError cs) \<and> cs \<noteq> [] \<and>
            set cs \<subseteq> set voto_columns - set (columns dv))"
  using frente_missing[OF assms(1,2)] voting_missing[OF assms(3,4)] by blast

theorem missing_column_fails_witness:
  "build_network_frente no_titulo_table empty_graph = Inl (KeyError [''titulo'']) \<and>
   build_network_voting no_tipoVoto_table empty_graph = Inl (KeyError [''tipoVoto''])"
proof -
  have h: "\<not> set frente_columns \<subseteq> set (columns no_titulo_table)"
    "rows no_titulo_table \<noteq> [] \<or>
       \<not> set [''id_deputado'', ''nome_deputado'', ''titulo''] \<subseteq> set (columns no_titulo_table)"
    "\<not> set voto_columns \<subseteq> set (columns no_tipoVoto_table)"
    "rows no_tipoVoto_table \<noteq> [] \<or>
       \<not> set [''id_deputado'', ''nome'', ''id''] \<subseteq> set (columns no_tipoVoto_table)"
    by (simp_all add: no_titulo_table_def no_tipoVoto_table_def frente_columns_def
        voto_columns_def)
  have d: "set frente_columns - set (columns no_titulo_table) = {''titulo''}"
    "set voto_columns - set (columns no_tipoVoto_table) = {''tipoVoto''}"
    by (auto simp: no_titulo_table_def no_tipoVoto_table_def frente_columns_def voto_columns_def)
  from missing_column_fails[OF h, of empty_graph]
  obtain cs cs' where cs: "build_network_frente no_titulo_table empty_graph = Inl (KeyError cs)"
    "cs \<noteq> []" "set cs \<subseteq> {''titulo''}"
    and cs': "build_network_voting no_tipoVoto_table empty_graph = Inl (KeyError cs')"
    "cs' \<noteq> []" "set cs' \<subseteq> {''tipoVoto''}"
    unfolding d by blast
  have e: "build_network_frente no_titulo_table empty_graph = Inl (KeyError [''titulo''])"
    by (simp add: no_titulo_table_def frente_def build_network_frente_def add_all_nodes_def
        distinct_pairs_def missing_def frente_schema_def drop_duplicates_def node_step_def
        loc_first_def dep_frentes_def)
  have e': "build_network_voting no_tipoVoto_table empty_graph = Inl (KeyError [''tipoVoto''])"
    by (simp add: no_tipoVoto_table_def voto_def build_network_voting_def add_all_nodes_def
        distinct_pairs_def missing_def voto_schema_def drop_duplicates_def node_step_def
        loc_first_def groupby_id_def ballot_step_def votos_dict_def)
  show ?thesis using e e' cs cs' by simp
qed

section \<open>Legislators listed under two names\<close>

lemmas build_frente_defs =
  build_network_frente_def add_all_nodes_def distinct_pairs_def missing_def
  frente_schema_def frente_columns_def drop_duplicates_def frente_def node_step_def
  loc_first_def add_node_def empty_graph_def dep_frentes_def frente_edge_step_def dict_get_def
  add_edge_def ensure_node_def adj_set_def Let_def

text \<open>
  C5 (the code against the claim): the membership builder takes its list of legislators
  from the distinct (id, name) pairs, so an id that occurs with two names is listed twice
  and \<open>combinations\<close> pairs it with itself. In \<open>two_names_table\<close> legislator 1 shares
  \<open>FrenteX\<close> with itself and the graph gets the self-loop (1, 1) of weight 1.
\<close>

theorem frente_self_loop:
  "map_sum id edges (build_network_frente two_names_table empty_graph) = Inr [(1, 1, 1)]"
  by (simp add: two_names_table_def build_frente_defs edges_def)

text \<open>
  C8 (the code against the claim): for the same reason the node of legislator 1 is written
  once per name, and it keeps the name of the last pair, \<open>B\<close>, while party and state are
  those of the first row of the id, whose name is \<open>A\<close>.
\<close>

theorem frente_node_name_not_first_row:
  "map_sum id g_node (build_network_frente two_names_table empty_graph) =
     Inr [(1, \<lparr>attr_nome = Some ''B'', attr_partido = Some ''PT'', attr_uf = Some ''SP''\<rparr>)]"
  by (simp add: two_names_table_def build_frente_defs)

text \<open>Where every id has a single name, both properties hold.\<close>

lemma distinct_ids_single_names:
  assumes "single_names sc df"
  shows "distinct (map fst (id_nome_pairs sc df))"
proof -
  have "inj_on fst (set (id_nome_pairs sc df))"
  proof (rule inj_onI)
    fix p q assume p: "p \<in> set (id_nome_pairs sc df)" and q: "q \<in> set (id_nome_pairs sc df)"
      and e: "fst p = fst q"
    from p obtain r where r: "r \<in> set (rows df)" "p = (get_id sc r, get_nome sc r)"
      by (auto simp: id_nome_pairs_def set_drop_duplicates)
    from q obtain r' where r': "r' \<in> set (rows df)" "q = (get_id sc r', get_nome sc r')"
      by (auto simp: id_nome_pairs_def set_drop_duplicates)
    have "get_id sc r = get_id sc r'"
      using e by (simp add: r(2) r'(2))
    then have "get_nome sc r = get_nome sc r'"
      using assms r(1) r'(1) unfolding single_names_def by blast
    then show "p = q" using r r' e by simp
  qed
  then show ?thesis
    by (simp add: distinct_map id_nome_pairs_def distinct_drop_duplicates)
qed

lemma combinations_irrefl: "distinct xs \<Longrightarrow> (a, a) \<notin> set (combinations xs)"
  by (induction xs) auto

lemma frente_no_self_loop:
  assumes "set frente_columns \<subseteq> set (columns df)" "single_names frente_schema df"
  shows "\<exists>G. build_network_frente df empty_graph = Inr G \<and> \<not> has_edge G a a"
proof -
  let ?ps = "id_nome_pairs frente_schema df"
  let ?G1 = "foldl (node_add frente_schema df) empty_graph ?ps"
  let ?G = "foldl (frente_edge_step (frentes_dict df)) ?G1 (combinations (map fst ?ps))"
  have ok1: "graph_ok ?G1"
    by (simp add: graph_ok_foldl_node_add graph_ok_empty)
  have e1: "edge_weight ?G1 a a = None"
    by (simp add: edge_weight_foldl_node_add graph_ok_empty)
       (simp add: edge_weight_def empty_graph_def)
  have "(a, a) \<notin> set (combinations (map fst ?ps))"
    using distinct_ids_single_names[OF assms(2)] by (rule combinations_irrefl)
  then have "edge_weight ?G a a = None"
    using e1 by (auto simp: edge_weight_foldl_frente[OF ok1])
  then show ?thesis
    using build_network_frente_present[OF assms(1), of empty_graph] by (simp add: has_edge_iff)
qed

lemma voting_no_self_loop:
  assumes "set voto_columns \<subseteq> set (columns df)"
  shows "\<exists>G. build_network_voting df empty_graph = Inr G \<and> \<not> has_edge G a a"
  using build_network_voting_present[OF assms] by (auto simp: has_edge_iff)

lemma node_attrs_single_names:
  assumes "schema_ok sc df" "single_names sc df" "first_row sc df d = Some r"
  shows "add_all_nodes sc df empty_graph = Inr (foldl (node_add sc df) empty_graph (id_nome_pairs sc df))
     \<and> map_of (g_node (foldl (node_add sc df) empty_graph (id_nome_pairs sc df))) d =
         Some \<lparr>attr_nome = Some (get_nome sc r), attr_partido = Some (get_partido sc r),
               attr_uf = Some (get_uf sc r)\<rparr>"
proof -
  let ?ps = "id_nome_pairs sc df"
  have r: "r \<in> set (rows df)" "get_id sc r = d"
    using assms(3) by (auto simp: first_row_def find_Some_iff in_set_conv_nth)
  then have "(d, get_nome sc r) \<in> set ?ps"
    by (auto simp: id_nome_pairs_def set_drop_duplicates)
  then have "(d, get_nome sc r) \<in> set (rev ?ps)" by simp
  moreover have "distinct (map fst (rev ?ps))"
    using distinct_ids_single_names[OF assms(2)] by (simp add: rev_map[symmetric])
  ultimately have "map_of (rev ?ps) d = Some (get_nome sc r)"
    by (rule map_of_is_SomeI[rotated])
  then have "final_attrs sc df ?ps d =
      Some \<lparr>attr_nome = Some (get_nome sc r), attr_partido = Some (get_partido sc r),
            attr_uf = Some (get_uf sc r)\<rparr>"
    by (simp add: final_attrs_def assms(3))
  then show ?thesis
    by (simp add: add_all_nodes_present[OF assms(1)] map_of_foldl_node_add)
qed

end
